theory Spec2Isabelle
  imports Complex_Main "HOL-Library.Char_ord" "HOL-Library.Product_Lexorder"
begin

section \<open>The crossword generator of \<open>mobile/src/utils/crosswordGenerator.ts\<close>\<close>

text \<open>
  A shallow embedding of \<open>generateCrossword\<close> and of the functions it calls.

  Conventions of the embedding.
  \<^item> A string is a \<open>char list\<close>. The normaliser is modelled on ASCII text: \<open>toUpperCase\<close>
    maps \<open>a\<close>..\<open>z\<close> to \<open>A\<close>..\<open>Z\<close> and leaves every other character alone, \<open>trim\<close> removes
    the ASCII white space of ECMAScript (TAB, LF, VT, FF, CR, SPACE). After normalisation
    every word is made of \<open>A\<close>..\<open>Z\<close> only, so the rest of the algorithm only sees ASCII.
  \<^item> A grid cell \<open>string | null\<close> is a \<open>char option\<close>: \<open>None\<close> is \<open>null\<close>, \<open>Some ch\<close>
    is the one-letter string. A grid is a list of rows.
  \<^item> Row and column numbers, scores and the numeric options are \<open>int\<close> (the source computes
    with integral JavaScript numbers only; candidate rows and columns can be negative).
    The average distance is an exact rational.
  \<^item> A thrown exception is a value \<open>Inl e\<close>; the returned \<open>null\<close> of \<open>generateCrossword\<close>
    is \<open>Inr None\<close>. The \<open>console\<close> messages are not part of the returned value and are not
    modelled.
\<close>

subsection \<open>Data model\<close>

datatype direction = Across | Down

datatype error = RangeError | TypeError

record WordInput =
  word :: string
  clue :: string

text \<open>\<open>WordPlacement\<close> of the source: the word and clue (spread from the input) and a position.\<close>

record WordPlacement = WordInput +
  row :: int
  col :: int
  direction :: direction
  score :: int

text \<open>
  \<open>PlacedWord\<close> and \<open>PuzzleGrid\<close> of the source. Their fields \<open>word\<close>, \<open>clue\<close>, \<open>direction\<close>,
  \<open>size\<close>, \<open>words\<close> and \<open>grid\<close> carry the prefix \<open>p\<close> here, since a record field is a constant
  of the theory and these names are taken.
\<close>

record PlacedWord =
  number :: int
  pword :: string
  pclue :: string
  answer :: string
  startRow :: int
  startCol :: int
  pdirection :: direction

type_synonym cell = "char option"
type_synonym grid = "cell list list"

record PuzzleGrid =
  psize :: int
  pwords :: "PlacedWord list"
  pgrid :: grid

record options =
  maxAttempts :: int
  minIntersections :: int
  gridPadding :: int

definition defaultOptions :: options where
  "defaultOptions = \<lparr>maxAttempts = 50, minIntersections = 1, gridPadding = 2\<rparr>"

subsection \<open>Normalisation\<close>

text \<open>
  \<open>String.prototype.toUpperCase\<close> and \<open>String.prototype.trim\<close> on ASCII text: on a character
  with a code below 128, upper-casing maps \<open>a\<close>..\<open>z\<close> to \<open>A\<close>..\<open>Z\<close> and nothing else, and the
  white space that \<open>trim\<close> removes is TAB, LF, VT, FF, CR and SPACE. What the built-ins do
  beyond ASCII is not modelled; the theorem about the normaliser is stated for ASCII input
  (\<open>asciiInput\<close> below).
\<close>

definition toUpperChar :: "char \<Rightarrow> char" where
  "toUpperChar ch =
     (if CHR ''a'' \<le> ch \<and> ch \<le> CHR ''z'' then char_of (of_char ch - (32::nat)) else ch)"

definition toUpperCase :: "string \<Rightarrow> string" where
  "toUpperCase s = map toUpperChar s"

definition isWhiteSpace :: "char \<Rightarrow> bool" where
  "isWhiteSpace ch =
     (ch = CHR 0x09 \<or> ch = CHR 0x0A \<or> ch = CHR 0x0B \<or> ch = CHR 0x0C \<or> ch = CHR 0x0D \<or> ch = CHR '' '')"

definition trim :: "string \<Rightarrow> string" where
  "trim s = rev (dropWhile isWhiteSpace (rev (dropWhile isWhiteSpace s)))"

text \<open>The test \<open>/^[A-Z]+$/.test(w)\<close>: at least one character, each in the range \<open>A\<close>..\<open>Z\<close>.\<close>

definition isUpperAZ :: "char \<Rightarrow> bool" where
  "isUpperAZ ch = (CHR ''A'' \<le> ch \<and> ch \<le> CHR ''Z'')"

definition matchesAZ :: "string \<Rightarrow> bool" where
  "matchesAZ w = (w \<noteq> [] \<and> list_all isUpperAZ w)"

definition normalizeWords :: "WordInput list \<Rightarrow> WordInput list" where
  "normalizeWords wordInputs =
     filter (\<lambda>w. length (word w) \<ge> 2 \<and> matchesAZ (word w))
       (map (\<lambda>w. \<lparr>word = trim (toUpperCase (word w)), clue = trim (clue w)\<rparr>) wordInputs)"



subsection \<open>Grid access\<close>

text \<open>
  Reading \<open>grid[r][c]\<close>. Outside the grid the model answers \<open>None\<close>, where the source
  would read \<open>undefined\<close> or throw. \<open>generateCrossword\<close> never reads there: \<open>canPlaceWord\<close>
  checks the bounds first and guards each read of a neighbour, \<open>scorePlacement\<close> and
  \<open>placeWord\<close> are called for the anchor (lemma \<open>anchor_inBounds\<close>) or after \<open>canPlaceWord\<close>
  (lemmas \<open>canPlaceWord_inBounds\<close> and \<open>inBounds_inGrid\<close>), and \<open>compactGrid\<close> scans and
  copies between bounds that it clamps to the grid. The theorems about single functions are
  stated for square grids and positions inside them.
\<close>

definition cellAt :: "grid \<Rightarrow> int \<Rightarrow> int \<Rightarrow> cell" where
  "cellAt g r c =
     (if 0 \<le> r \<and> r < int (length g) \<and> 0 \<le> c \<and> c < int (length (g ! nat r))
      then g ! nat r ! nat c else None)"

text \<open>
  Writing \<open>grid[r][c] = v\<close>. Outside the grid, where the source would throw or lengthen a
  row, the model leaves the grid as it is; \<open>generateCrossword\<close> never writes there.
\<close>

definition setCell :: "grid \<Rightarrow> int \<Rightarrow> int \<Rightarrow> cell \<Rightarrow> grid" where
  "setCell g r c v =
     (if 0 \<le> r \<and> r < int (length g) \<and> 0 \<le> c \<and> c < int (length (g ! nat r))
      then g[nat r := (g ! nat r)[nat c := v]] else g)"

text \<open>The cell of letter \<open>i\<close>: \<open>r = direction === 'across' ? row : row + i\<close> and likewise \<open>c\<close>.\<close>

definition cellRow :: "direction \<Rightarrow> int \<Rightarrow> nat \<Rightarrow> int" where
  "cellRow d r i = (if d = Across then r else r + int i)"

definition cellCol :: "direction \<Rightarrow> int \<Rightarrow> nat \<Rightarrow> int" where
  "cellCol d c i = (if d = Across then c + int i else c)"

subsection \<open>findIntersections, canPlaceWord, placeWord\<close>

definition findIntersections :: "string \<Rightarrow> string \<Rightarrow> (nat \<times> nat) list" where
  "findIntersections currentWord placedWord =
     concat (map (\<lambda>i. concat (map (\<lambda>j. if currentWord ! i = placedWord ! j then [(i, j)] else [])
                                   [0..<length placedWord]))
                 [0..<length currentWord])"

definition inBounds :: "grid \<Rightarrow> string \<Rightarrow> int \<Rightarrow> int \<Rightarrow> direction \<Rightarrow> bool" where
  "inBounds g w r c d =
     (let gridSize = int (length g) in
      if d = Across
      then \<not> (r < 0 \<or> r \<ge> gridSize \<or> c < 0 \<or> c + int (length w) > gridSize)
      else \<not> (c < 0 \<or> c \<ge> gridSize \<or> r < 0 \<or> r + int (length w) > gridSize))"

text \<open>One round of the loop over the letters: \<open>True\<close> when the round does not return \<open>false\<close>.\<close>

definition cellOk :: "grid \<Rightarrow> string \<Rightarrow> int \<Rightarrow> int \<Rightarrow> direction \<Rightarrow> nat \<Rightarrow> bool" where
  "cellOk g w r c d i =
     (let gridSize = int (length g); rr = cellRow d r i; cc = cellCol d c i in
      if cellAt g rr cc \<noteq> None \<and> cellAt g rr cc \<noteq> Some (w ! i) then False
      else if d = Across then
        (if cellAt g rr cc = None then
           (if rr > 0 \<and> cellAt g (rr - 1) cc \<noteq> None then False
            else if rr < gridSize - 1 \<and> cellAt g (rr + 1) cc \<noteq> None then False
            else True)
         else True)
      else
        (if cellAt g rr cc = None then
           (if cc > 0 \<and> cellAt g rr (cc - 1) \<noteq> None then False
            else if cc < gridSize - 1 \<and> cellAt g rr (cc + 1) \<noteq> None then False
            else True)
         else True))"

definition endsFree :: "grid \<Rightarrow> string \<Rightarrow> int \<Rightarrow> int \<Rightarrow> direction \<Rightarrow> bool" where
  "endsFree g w r c d =
     (let gridSize = int (length g); n = int (length w) in
      if d = Across then
        (if c > 0 \<and> cellAt g r (c - 1) \<noteq> None then False
         else if c + n < gridSize \<and> cellAt g r (c + n) \<noteq> None then False
         else True)
      else
        (if r > 0 \<and> cellAt g (r - 1) c \<noteq> None then False
         else if r + n < gridSize \<and> cellAt g (r + n) c \<noteq> None then False
         else True))"

definition canPlaceWord :: "grid \<Rightarrow> string \<Rightarrow> int \<Rightarrow> int \<Rightarrow> direction \<Rightarrow> bool" where
  "canPlaceWord g w r c d =
     (if \<not> inBounds g w r c d then False
      else if \<not> list_all (cellOk g w r c d) [0..<length w] then False
      else endsFree g w r c d)"

definition placeWord :: "grid \<Rightarrow> string \<Rightarrow> int \<Rightarrow> int \<Rightarrow> direction \<Rightarrow> grid" where
  "placeWord g w r c d =
     fold (\<lambda>i g'. setCell g' (cellRow d r i) (cellCol d c i) (Some (w ! i))) [0..<length w] g"

subsection \<open>Scoring\<close>

definition calculateAverageDistance :: "int \<Rightarrow> int \<Rightarrow> WordPlacement list \<Rightarrow> rat" where
  "calculateAverageDistance r c placedWords =
     (if length placedWords = 0 then 0
      else of_int (fold (\<lambda>w totalDistance. totalDistance + (\<bar>r - row w\<bar> + \<bar>c - col w\<bar>)) placedWords 0)
             / of_nat (length placedWords))"

text \<open>The first loop of \<open>scorePlacement\<close>: ten points for each letter already on the grid.\<close>

definition intersectionScore :: "grid \<Rightarrow> string \<Rightarrow> int \<Rightarrow> int \<Rightarrow> direction \<Rightarrow> int" where
  "intersectionScore g w r c d =
     fold (\<lambda>i s. if cellAt g (cellRow d r i) (cellCol d c i) = Some (w ! i) then s + 10 else s)
       [0..<length w] 0"

text \<open>The score before the last \<open>if\<close> of \<open>scorePlacement\<close>, the penalty for a long word.\<close>

definition scoreBeforePenalty ::
  "grid \<Rightarrow> string \<Rightarrow> int \<Rightarrow> int \<Rightarrow> direction \<Rightarrow> WordPlacement list \<Rightarrow> int" where
  "scoreBeforePenalty g w r c d placedWords =
     (let score0 = intersectionScore g w r c d;
          avgDistance = calculateAverageDistance r c placedWords;
          score1 = (if avgDistance < 5 then score0 + 5 else score0);
          score2 = (if avgDistance < 3 then score1 + 5 else score1)
      in score2)"

definition scorePlacement ::
  "grid \<Rightarrow> string \<Rightarrow> int \<Rightarrow> int \<Rightarrow> direction \<Rightarrow> WordPlacement list \<Rightarrow> int" where
  "scorePlacement g w r c d placedWords =
     (let score2 = scoreBeforePenalty g w r c d placedWords
      in if length w > 6 \<and> score2 < 10 then score2 - 5 else score2)"

subsection \<open>The placement loop\<close>

text \<open>The candidates that one placed word contributes, in the order of its intersections.\<close>

definition candidatesFor ::
  "grid \<Rightarrow> WordInput \<Rightarrow> WordPlacement list \<Rightarrow> WordPlacement \<Rightarrow> WordPlacement list" where
  "candidatesFor g currentWord placedWords placedWord =
     concat (map (\<lambda>(currentWordIndex, placedWordIndex).
        let d = (if direction placedWord = Across then Down else Across);
            r = (if d = Across then row placedWord + int placedWordIndex
                 else row placedWord - int currentWordIndex);
            c = (if d = Across then col placedWord - int currentWordIndex
                 else col placedWord + int placedWordIndex)
        in if canPlaceWord g (word currentWord) r c d
           then [\<lparr>word = word currentWord, clue = clue currentWord, row = r, col = c,
                  direction = d,
                  score = scorePlacement g (word currentWord) r c d placedWords\<rparr>]
           else [])
       (findIntersections (word currentWord) (word placedWord)))"

definition collectCandidates ::
  "grid \<Rightarrow> WordInput \<Rightarrow> WordPlacement list \<Rightarrow> WordPlacement list" where
  "collectCandidates g currentWord placedWords =
     concat (map (candidatesFor g currentWord placedWords) placedWords)"

text \<open>
  \<open>candidates.sort((a, b) => b.score - a.score)\<close> is a stable sort by falling score, of which
  only the first element is used.
\<close>

definition selectBest :: "int \<Rightarrow> WordPlacement list \<Rightarrow> WordPlacement option" where
  "selectBest minInt candidates =
     (if length candidates > 0 then
        (let best = hd (sort_key (\<lambda>a. - score a) candidates) in
         if score best \<ge> minInt then Some best else None)
      else None)"

text \<open>
  The \<open>while (attempts < maxAttempts && !bestPlacement)\<close> loop; the result is the final
  \<open>bestPlacement\<close> and the final \<open>attempts\<close>.
\<close>

function findPlacement ::
  "options \<Rightarrow> grid \<Rightarrow> WordInput \<Rightarrow> WordPlacement list \<Rightarrow> int \<Rightarrow> WordPlacement option \<times> int" where
  "findPlacement opts g currentWord placedWords attempts =
     (if attempts < maxAttempts opts then
        (case selectBest (minIntersections opts) (collectCandidates g currentWord placedWords) of
           Some best \<Rightarrow> (Some best, attempts + 1)
         | None \<Rightarrow> findPlacement opts g currentWord placedWords (attempts + 1))
      else (None, attempts))"
  by pat_completeness auto
termination
  by (relation "measure (\<lambda>(opts, g, w, ps, attempts). nat (maxAttempts opts - attempts))") auto

declare findPlacement.simps [simp del]

text \<open>The \<open>for\<close> loop over \<open>sortedWords[1..]\<close>; the state is the grid and \<open>placedWords\<close>.\<close>

fun placeRemaining ::
  "options \<Rightarrow> WordInput list \<Rightarrow> grid \<times> WordPlacement list \<Rightarrow> grid \<times> WordPlacement list" where
  "placeRemaining opts [] st = st"
| "placeRemaining opts (currentWord # rest) (g, placedWords) =
     (case fst (findPlacement opts g currentWord placedWords 0) of
        Some bestPlacement \<Rightarrow>
          placeRemaining opts rest
            (placeWord g (word currentWord) (row bestPlacement) (col bestPlacement)
               (direction bestPlacement),
             placedWords @ [bestPlacement])
      | None \<Rightarrow> placeRemaining opts rest (g, placedWords))"

definition initialGridSize :: "WordInput \<Rightarrow> nat" where
  "initialGridSize firstWord = max 30 (length (word firstWord) * 3)"

definition emptyGrid :: "nat \<Rightarrow> grid" where
  "emptyGrid n = replicate n (replicate n None)"

definition anchorPlacement :: "WordInput \<Rightarrow> WordPlacement" where
  "anchorPlacement firstWord =
     (let n = int (initialGridSize firstWord);
          centerRow = n div 2;
          centerCol = (n - int (length (word firstWord))) div 2
      in \<lparr>word = word firstWord, clue = clue firstWord, row = centerRow, col = centerCol,
          direction = Across, score = 0\<rparr>)"

text \<open>The grid and \<open>placedWords\<close> when the placement loop has ended.\<close>

definition placeAll :: "options \<Rightarrow> WordInput \<Rightarrow> WordInput list \<Rightarrow> grid \<times> WordPlacement list" where
  "placeAll opts firstWord rest =
     (let anchor = anchorPlacement firstWord;
          g = placeWord (emptyGrid (initialGridSize firstWord)) (word firstWord)
                (row anchor) (col anchor) Across
      in placeRemaining opts rest (g, [anchor]))"

subsection \<open>compactGrid\<close>

text \<open>The scan for the bounds of the content: \<open>(minRow, maxRow, minCol, maxCol)\<close>.\<close>

definition boundsStep :: "grid \<Rightarrow> nat \<Rightarrow> nat \<Rightarrow> int \<times> int \<times> int \<times> int \<Rightarrow> int \<times> int \<times> int \<times> int" where
  "boundsStep g r c b =
     (case b of (minRow, maxRow, minCol, maxCol) \<Rightarrow>
        if cellAt g (int r) (int c) \<noteq> None
        then (min minRow (int r), max maxRow (int r), min minCol (int c), max maxCol (int c))
        else b)"

definition findBounds :: "grid \<Rightarrow> int \<times> int \<times> int \<times> int" where
  "findBounds g =
     (let gridSize = length g in
      fold (\<lambda>r b. fold (\<lambda>c b'. boundsStep g r c b') [0..<gridSize] b) [0..<gridSize]
        (int gridSize, -1, int gridSize, -1))"

record Compacted =
  csize :: int
  cgrid :: grid
  cwords :: "WordPlacement list"

definition copyContent :: "grid \<Rightarrow> int \<Rightarrow> int \<Rightarrow> int \<Rightarrow> int \<Rightarrow> grid \<Rightarrow> grid" where
  "copyContent g minRow maxRow minCol maxCol newGrid =
     fold (\<lambda>r ng. fold (\<lambda>c ng'. setCell ng' (r - minRow) (c - minCol) (cellAt g r c))
                     [minCol..maxCol] ng)
       [minRow..maxRow] newGrid"

text \<open>\<open>Array(newSize)\<close> throws a \<open>RangeError\<close> for a negative \<open>newSize\<close>.\<close>

definition compactGrid :: "grid \<Rightarrow> WordPlacement list \<Rightarrow> error + Compacted" where
  "compactGrid g ws =
     (let gridSize = int (length g);
          padding = 0 in
      case findBounds g of (minRow0, maxRow0, minCol0, maxCol0) \<Rightarrow>
        let minRow = max 0 (minRow0 - padding);
            maxRow = min (gridSize - 1) (maxRow0 + padding);
            minCol = max 0 (minCol0 - padding);
            maxCol = min (gridSize - 1) (maxCol0 + padding);
            newSize = max (maxRow - minRow + 1) (maxCol - minCol + 1)
        in if newSize < 0 then Inl RangeError
           else Inr \<lparr>csize = newSize,
                     cgrid = copyContent g minRow maxRow minCol maxCol (emptyGrid (nat newSize)),
                     cwords = map (\<lambda>w. w\<lparr>row := row w - minRow, col := col w - minCol\<rparr>) ws\<rparr>)"

subsection \<open>assignClueNumbers\<close>

text \<open>
  The \<open>Map\<close> from start position to the words that start there is a list of entries in
  insertion order; the key \<open>`${row},${col}`\<close> is the pair \<open>(row, col)\<close>.
\<close>

definition addStart ::
  "WordPlacement \<Rightarrow> ((int \<times> int) \<times> WordPlacement list) list \<Rightarrow> ((int \<times> int) \<times> WordPlacement list) list" where
  "addStart w startPositions =
     (let key = (row w, col w);
          m = (if key \<notin> fst ` set startPositions then startPositions @ [(key, [])]
               else startPositions)
      in map (\<lambda>(k, ws). if k = key then (k, ws @ [w]) else (k, ws)) m)"

definition toPlacedWord :: "int \<Rightarrow> WordPlacement \<Rightarrow> PlacedWord" where
  "toPlacedWord clueNumber w =
     \<lparr>number = clueNumber, pword = word w, pclue = clue w, answer = word w,
      startRow = row w, startCol = col w, pdirection = direction w\<rparr>"

fun numberFrom :: "int \<Rightarrow> ((int \<times> int) \<times> WordPlacement list) list \<Rightarrow> PlacedWord list" where
  "numberFrom clueNumber [] = []"
| "numberFrom clueNumber ((position, wordsAtPosition) # rest) =
     map (toPlacedWord clueNumber) wordsAtPosition @ numberFrom (clueNumber + 1) rest"

text \<open>
  The comparator of the sort, \<open>aRow !== bRow ? aRow - bRow : aCol - bCol\<close>, is the
  lexicographic order of the pairs \<open>(row, col)\<close>.
\<close>

definition assignClueNumbers :: "WordPlacement list \<Rightarrow> PlacedWord list" where
  "assignClueNumbers ws =
     (let startPositions = fold addStart ws [];
          sortedPositions = sort_key fst startPositions
      in numberFrom 1 sortedPositions)"

subsection \<open>generateCrossword\<close>

text \<open>
  \<open>[...normalizedWords].sort((a, b) => b.word.length - a.word.length)\<close>: a stable sort by
  falling length.
\<close>

definition sortWords :: "WordInput list \<Rightarrow> WordInput list" where
  "sortWords normalizedWords = sort_key (\<lambda>a. - int (length (word a))) normalizedWords"

definition generateCrossword :: "WordInput list \<Rightarrow> options \<Rightarrow> error + PuzzleGrid option" where
  "generateCrossword wordInputs opts =
     (if length wordInputs = 0 then Inr None
      else
        let normalizedWords = normalizeWords wordInputs in
        if length normalizedWords = 0 then Inr None
        else
          let sortedWords = sortWords normalizedWords in
          case sortedWords of
            [] \<Rightarrow> Inl TypeError
          | firstWord # rest \<Rightarrow>
              (case placeAll opts firstWord rest of (g, placedWords) \<Rightarrow>
                 if int (length placedWords) < min 3 (int (length sortedWords)) then Inr None
                 else
                   (case compactGrid g placedWords of
                      Inl e \<Rightarrow> Inl e
                    | Inr compacted \<Rightarrow>
                        Inr (Some \<lparr>psize = csize compacted,
                                   pwords = assignClueNumbers (cwords compacted),
                                   pgrid = cgrid compacted\<rparr>))))"

subsection \<open>The state at the end of the placement loop\<close>

text \<open>
  The grid and the list \<open>placedWords\<close> that \<open>generateCrossword\<close> holds when its placement loop
  has ended, for an input with at least one valid word.
\<close>

definition placementOf :: "options \<Rightarrow> WordInput list \<Rightarrow> grid \<times> WordPlacement list" where
  "placementOf opts wordInputs =
     (case sortWords (normalizeWords wordInputs) of
        [] \<Rightarrow> ([], [])
      | firstWord # rest \<Rightarrow> placeAll opts firstWord rest)"

subsection \<open>Well-formed grids\<close>

text \<open>A grid is a square matrix: every row is as long as the grid has rows.\<close>

definition square :: "grid \<Rightarrow> bool" where
  "square g = list_all (\<lambda>r. length r = length g) g"

subsection \<open>The invariant of the placement loop\<close>

definition inGrid :: "grid \<Rightarrow> int \<Rightarrow> int \<Rightarrow> bool" where
  "inGrid g r c = (0 \<le> r \<and> r < int (length g) \<and> 0 \<le> c \<and> c < int (length g))"

text \<open>The cell \<open>(r', c')\<close> is one of the cells of the word \<open>w\<close> placed at \<open>(r, c)\<close> along \<open>d\<close>.\<close>

definition inSpan :: "string \<Rightarrow> int \<Rightarrow> int \<Rightarrow> direction \<Rightarrow> int \<Rightarrow> int \<Rightarrow> bool" where
  "inSpan w r c d r' c' = (\<exists>i<length w. cellRow d r i = r' \<and> cellCol d c i = c')"

text \<open>The span of the word lies inside the grid and the grid holds the word's letters there.\<close>

definition onGrid :: "grid \<Rightarrow> string \<Rightarrow> int \<Rightarrow> int \<Rightarrow> direction \<Rightarrow> bool" where
  "onGrid g w r c d =
     (inBounds g w r c d \<and>
      (\<forall>i<length w. cellAt g (cellRow d r i) (cellCol d c i) = Some (w ! i)))"

text \<open>
  The grid is square, every placed word is on it, and every letter of the grid belongs to a
  placed word.
\<close>

definition consistent :: "grid \<Rightarrow> WordPlacement list \<Rightarrow> bool" where
  "consistent g ps =
     (square g \<and>
      (\<forall>p \<in> set ps. onGrid g (word p) (row p) (col p) (direction p)) \<and>
      (\<forall>r c. cellAt g r c \<noteq> None \<longrightarrow>
         (\<exists>p \<in> set ps. inSpan (word p) (row p) (col p) (direction p) r c)))"

subsection \<open>The bounding box of the content\<close>

definition hasContent :: "grid \<Rightarrow> bool" where
  "hasContent g = (\<exists>r c. cellAt g r c \<noteq> None)"

text \<open>
  \<open>(minRow, maxRow, minCol, maxCol)\<close> is the tight bounding box of the letters: every letter
  lies within it, and each of its four sides holds a letter.
\<close>

definition isBounds :: "grid \<Rightarrow> int \<Rightarrow> int \<Rightarrow> int \<Rightarrow> int \<Rightarrow> bool" where
  "isBounds g minRow maxRow minCol maxCol =
     ((\<forall>r c. cellAt g r c \<noteq> None \<longrightarrow> minRow \<le> r \<and> r \<le> maxRow \<and> minCol \<le> c \<and> c \<le> maxCol) \<and>
      (\<exists>c. cellAt g minRow c \<noteq> None) \<and> (\<exists>c. cellAt g maxRow c \<noteq> None) \<and>
      (\<exists>r. cellAt g r minCol \<noteq> None) \<and> (\<exists>r. cellAt g r maxCol \<noteq> None))"

subsection \<open>Empty rows and columns\<close>

text \<open>Row \<open>r\<close> of the grid holds no letter; column \<open>c\<close> of the grid holds no letter.\<close>

definition rowEmpty :: "grid \<Rightarrow> nat \<Rightarrow> bool" where
  "rowEmpty g r = list_all (\<lambda>x. x = None) (g ! r)"

definition colEmpty :: "grid \<Rightarrow> nat \<Rightarrow> bool" where
  "colEmpty g c = list_all (\<lambda>r. r ! c = None) g"

section \<open>Properties\<close>

subsection \<open>The normaliser\<close>















subsection \<open>The score of a placement\<close>

lemma fold_hits:
  "fold (\<lambda>i s. if P i then s + 10 else s) xs (a::int) = a + 10 * int (length (filter P xs))"
  by (induction xs arbitrary: a) auto

lemma fold_distance:
  "fold (\<lambda>w t. t + f w) ps (a::int) = a + sum_list (map f ps)"
  by (induction ps arbitrary: a) auto

lemma calculateAverageDistance_mean:
  "calculateAverageDistance r c ps =
     (if ps = [] then 0
      else of_int (\<Sum>p\<leftarrow>ps. \<bar>r - row p\<bar> + \<bar>c - col p\<bar>) / of_nat (length ps))"
  by (simp add: calculateAverageDistance_def fold_distance)

text \<open>
  Claim C4. For a square grid and a word whose span lies inside it, the score is ten times the
  number of letters \<open>i\<close> of the word whose cell, \<open>(r, c + i)\<close> for a word across and
  \<open>(r + i, c)\<close> for a word down, already holds letter \<open>i\<close> of the word; plus 5 when the average
  Manhattan distance from the start cell to the start cells of the placed words is below 5,
  plus 5 more when it is below 3; minus 5 when the word has more than six letters and the sum
  so far is below 10. (With no placed word there is no distance to average; the code takes 0
  there.)
\<close>

theorem scorePlacement_spec:
  assumes "square g" and "inBounds g w r c d"
  shows "scorePlacement g w r c d ps =
     (let hits = length (filter (\<lambda>i. cellAt g (if d = Across then r else r + int i)
                                             (if d = Across then c + int i else c) = Some (w ! i))
                          [0..<length w]);
          avg = (if ps = [] then 0
                 else of_int (\<Sum>p\<leftarrow>ps. \<bar>r - row p\<bar> + \<bar>c - col p\<bar>) / of_nat (length ps) :: rat);
          s = 10 * int hits + (if avg < 5 then 5 else 0) + (if avg < 3 then 5 else 0)
      in s - (if length w > 6 \<and> s < 10 then 5 else 0))"
  by (simp add: scorePlacement_def scoreBeforePenalty_def Let_def intersectionScore_def
        fold_hits calculateAverageDistance_mean cellRow_def cellCol_def)

theorem scorePlacement_spec_witness:
  "square [[None, None, None], [None, None, None], [Some CHR ''C'', Some CHR ''A'', Some CHR ''T'']] \<and>
   inBounds [[None, None, None], [None, None, None], [Some CHR ''C'', Some CHR ''A'', Some CHR ''T'']]
     ''ORA'' 0 1 Down \<and>
   scorePlacement [[None, None, None], [None, None, None], [Some CHR ''C'', Some CHR ''A'', Some CHR ''T'']]
     ''ORA'' 0 1 Down
     [\<lparr>word = ''CAT'', clue = ''pet'', row = 2, col = 0, direction = Across, score = 0\<rparr>] = 15 \<and>
   inBounds [[None, None, None], [None, None, None], [Some CHR ''C'', Some CHR ''A'', Some CHR ''T'']]
     ''BAT'' 2 0 Across \<and>
   scorePlacement [[None, None, None], [None, None, None], [Some CHR ''C'', Some CHR ''A'', Some CHR ''T'']]
     ''BAT'' 2 0 Across
     [\<lparr>word = ''CAT'', clue = ''pet'', row = 2, col = 0, direction = Across, score = 0\<rparr>] = 30"
proof -
  let ?g = "[[None, None, None], [None, None, None], [Some CHR ''C'', Some CHR ''A'', Some CHR ''T'']]"
  let ?ps = "[\<lparr>word = ''CAT'', clue = ''pet'', row = 2, col = 0, direction = Across, score = 0\<rparr>]"
  have h1: "square ?g" by (simp add: square_def)
  have h2: "inBounds ?g ''ORA'' 0 1 Down" by (simp add: inBounds_def)
  have h3: "inBounds ?g ''BAT'' 2 0 Across" by (simp add: inBounds_def)
  have down: "scorePlacement ?g ''ORA'' 0 1 Down ?ps = 15"
    unfolding scorePlacement_spec [OF h1 h2] by code_simp
  have across: "scorePlacement ?g ''BAT'' 2 0 Across ?ps = 30"
    unfolding scorePlacement_spec [OF h1 h3] by code_simp
  from h1 h2 h3 down across show ?thesis by simp
qed

subsection \<open>Clue numbers\<close>

lemma insort_key_map:
  "insort_key f (g x) (map g xs) = map g (insort_key (\<lambda>y. f (g y)) x xs)"
  by (induction xs) auto

lemma sort_key_map: "sort_key f (map g xs) = map g (sort_key (\<lambda>y. f (g y)) xs)"
  by (induction xs) (auto simp: insort_key_map)

lemma addStart_new:
  assumes "(row w, col w) \<notin> set ks"
  shows "addStart w (map (\<lambda>k. (k, F k)) ks) = map (\<lambda>k. (k, F k)) ks @ [((row w, col w), [w])]"
  using assms by (auto simp: addStart_def Let_def image_image)

lemma addStart_old:
  assumes "(row w, col w) \<in> set ks"
  shows "addStart w (map (\<lambda>k. (k, F k)) ks) =
         map (\<lambda>k. (k, if k = (row w, col w) then F k @ [w] else F k)) ks"
  using assms by (auto simp: addStart_def Let_def image_image)

lemma startPositions_shape:
  "\<exists>ks. distinct ks \<and> set ks = (\<lambda>w. (row w, col w)) ` set ws \<and>
        fold addStart ws [] = map (\<lambda>k. (k, filter (\<lambda>w. (row w, col w) = k) ws)) ks"
proof (induction ws rule: rev_induct)
  case Nil
  show ?case by simp
next
  case (snoc w ws)
  then obtain ks where ks: "distinct ks" "set ks = (\<lambda>w. (row w, col w)) ` set ws"
    "fold addStart ws [] = map (\<lambda>k. (k, filter (\<lambda>w. (row w, col w) = k) ws)) ks"
    by blast
  show ?case
  proof (cases "(row w, col w) \<in> set ks")
    case True
    have "fold addStart (ws @ [w]) [] =
          map (\<lambda>k. (k, filter (\<lambda>w. (row w, col w) = k) (ws @ [w]))) ks"
      using ks(3) True by (simp add: addStart_old)
    with ks(1,2) True show ?thesis by (intro exI[of _ ks]) auto
  next
    case False
    then have none: "filter (\<lambda>v. (row v, col v) = (row w, col w)) ws = []"
      using ks(2) by (force simp: filter_empty_conv image_iff)
    have "fold addStart (ws @ [w]) [] =
          map (\<lambda>k. (k, filter (\<lambda>w. (row w, col w) = k) (ws @ [w]))) (ks @ [(row w, col w)])"
      using ks(3) False none by (auto simp: addStart_new)
    with ks(1,2) False show ?thesis by (intro exI[of _ "ks @ [(row w, col w)]"]) auto
  qed
qed

lemma numberFrom_enumerate:
  "numberFrom (n + int m) (map (\<lambda>k. (k, F k)) ps) =
     concat (map (\<lambda>(i, p). map (toPlacedWord (n + int i)) (F p)) (enumerate m ps))"
proof (induction ps arbitrary: m)
  case Nil
  show ?case by simp
next
  case (Cons p ps)
  have "n + int m + 1 = n + int (Suc m)" by simp
  then have "numberFrom (n + int m + 1) (map (\<lambda>k. (k, F k)) ps) =
     concat (map (\<lambda>(i, p). map (toPlacedWord (n + int i)) (F p)) (enumerate (Suc m) ps))"
    using Cons[of "Suc m"] by metis
  then show ?case by simp
qed

lemma sort_distinct_sorted_list_of_set:
  "distinct ks \<Longrightarrow> sort ks = sorted_list_of_set (set ks)"
  by (simp add: sorted_list_of_set_sort_remdups distinct_remdups_id)

lemma sorted_positions_reading_order:
  "sorted_wrt (\<lambda>a b. fst a < fst b \<or> (fst a = fst b \<and> snd a < snd b))
     (sorted_list_of_set (A :: (int \<times> int) set))"
proof -
  have "sorted_wrt (<) (sorted_list_of_set A)" by (rule strict_sorted_list_of_set)
  then show ?thesis
    by (rule sorted_wrt_mono_rel[rotated]) (auto simp: less_prod_def)
qed

lemma assignClueNumbers_concat:
  "(let positions = sorted_list_of_set ((\<lambda>w. (row w, col w)) ` set ws)
    in assignClueNumbers ws =
         concat (map (\<lambda>(i, p). map (toPlacedWord (1 + int i))
                                   (filter (\<lambda>w. (row w, col w) = p) ws))
                     (enumerate 0 positions)) \<and>
       sorted_wrt (\<lambda>a b. fst a < fst b \<or> (fst a = fst b \<and> snd a < snd b)) positions)"
proof -
  obtain ks where ks: "distinct ks" "set ks = (\<lambda>w. (row w, col w)) ` set ws"
    "fold addStart ws [] = map (\<lambda>k. (k, filter (\<lambda>w. (row w, col w) = k) ws)) ks"
    using startPositions_shape by blast
  have "sort_key fst (fold addStart ws []) =
        map (\<lambda>k. (k, filter (\<lambda>w. (row w, col w) = k) ws)) (sort ks)"
    by (simp add: ks(3) sort_key_map)
  also have "sort ks = sorted_list_of_set ((\<lambda>w. (row w, col w)) ` set ws)"
    using ks(1,2) by (simp add: sort_distinct_sorted_list_of_set)
  finally show ?thesis
    using numberFrom_enumerate[of 1 0]
    by (simp add: assignClueNumbers_def Let_def sorted_positions_reading_order)
qed

text \<open>
  Claim C7. The start positions of the records, each taken once and listed by rising row and,
  within a row, by rising column, are numbered 1, 2, 3, ... in that order; the output lists,
  position by position, the records that start there (in their input order), each with the
  number of its position. So records that share a start position share a number.
\<close>

theorem assignClueNumbers_spec:
  "(let positions = sorted_list_of_set ((\<lambda>w. (row w, col w)) ` set ws)
    in assignClueNumbers ws =
         concat (map (\<lambda>(i, p). map (toPlacedWord (1 + int i))
                                   (filter (\<lambda>w. (row w, col w) = p) ws))
                     (enumerate 0 positions)) \<and>
       sorted_wrt (\<lambda>a b. fst a < fst b \<or> (fst a = fst b \<and> snd a < snd b)) positions)"
  by (rule assignClueNumbers_concat)

theorem assignClueNumbers_spec_witness:
  "assignClueNumbers
     [\<lparr>word = ''AB'', clue = ''c1'', row = 2, col = 1, direction = Across, score = 0\<rparr>,
      \<lparr>word = ''CD'', clue = ''c2'', row = 0, col = 3, direction = Across, score = 0\<rparr>,
      \<lparr>word = ''AE'', clue = ''c3'', row = 2, col = 1, direction = Down, score = 0\<rparr>,
      \<lparr>word = ''FG'', clue = ''c4'', row = 0, col = 1, direction = Down, score = 0\<rparr>]
   = [\<lparr>number = 1, pword = ''FG'', pclue = ''c4'', answer = ''FG'', startRow = 0, startCol = 1,
        pdirection = Down\<rparr>,
      \<lparr>number = 2, pword = ''CD'', pclue = ''c2'', answer = ''CD'', startRow = 0, startCol = 3,
        pdirection = Across\<rparr>,
      \<lparr>number = 3, pword = ''AB'', pclue = ''c1'', answer = ''AB'', startRow = 2, startCol = 1,
        pdirection = Across\<rparr>,
      \<lparr>number = 3, pword = ''AE'', pclue = ''c3'', answer = ''AE'', startRow = 2, startCol = 1,
        pdirection = Down\<rparr>]"
  unfolding assignClueNumbers_spec [unfolded Let_def, THEN conjunct1] by code_simp

subsection \<open>Reading and writing grid cells\<close>

lemma square_row: "square g \<Longrightarrow> 0 \<le> r \<Longrightarrow> r < int (length g) \<Longrightarrow> length (g ! nat r) = length g"
  by (simp add: square_def list_all_length)

lemma cellAt_square:
  "square g \<Longrightarrow> cellAt g r c = (if inGrid g r c then g ! nat r ! nat c else None)"
  by (auto simp: cellAt_def inGrid_def square_row)

lemma cellAt_outside: "square g \<Longrightarrow> \<not> inGrid g r c \<Longrightarrow> cellAt g r c = None"
  by (simp add: cellAt_square)

lemma cellAt_Some_inGrid: "square g \<Longrightarrow> cellAt g r c \<noteq> None \<Longrightarrow> inGrid g r c"
  by (auto simp: cellAt_square split: if_splits)

lemma length_setCell [simp]: "length (setCell g r c v) = length g"
  by (simp add: setCell_def)

lemma square_setCell: "square g \<Longrightarrow> square (setCell g r c v)"
  by (auto simp: square_def setCell_def list_all_length nth_list_update)

lemma inGrid_setCell [simp]: "inGrid (setCell g r c v) r' c' = inGrid g r' c'"
  by (simp add: inGrid_def)

lemma cellAt_setCell:
  assumes "square g"
  shows "cellAt (setCell g r c v) r' c' =
         (if r' = r \<and> c' = c \<and> inGrid g r c then v else cellAt g r' c')"
proof (cases "inGrid g r c")
  case False
  then have "setCell g r c v = g"
    using assms by (auto simp: setCell_def inGrid_def square_row)
  with False show ?thesis by simp
next
  case True
  then have upd: "setCell g r c v = g[nat r := (g ! nat r)[nat c := v]]"
    using assms by (auto simp: setCell_def inGrid_def square_row)
  have sq: "square (setCell g r c v)" using assms by (rule square_setCell)
  show ?thesis
  proof (cases "inGrid g r' c'")
    case False
    then show ?thesis using assms sq True by (auto simp: cellAt_square)
  next
    case in': True
    have "cellAt (setCell g r c v) r' c' = (g[nat r := (g ! nat r)[nat c := v]]) ! nat r' ! nat c'"
      using sq in' by (simp add: cellAt_square upd[symmetric])
    also have "\<dots> = (if r' = r \<and> c' = c then v else g ! nat r' ! nat c')"
      using True in' assms
      by (auto simp: inGrid_def nth_list_update square_row nat_eq_iff)
    finally show ?thesis using True in' assms by (simp add: cellAt_square)
  qed
qed

lemma length_emptyGrid [simp]: "length (emptyGrid n) = n"
  by (simp add: emptyGrid_def)

lemma square_emptyGrid [simp]: "square (emptyGrid n)"
  by (simp add: emptyGrid_def square_def list_all_length)

lemma cellAt_emptyGrid [simp]: "cellAt (emptyGrid n) r c = None"
proof (cases "0 \<le> r \<and> r < int n")
  case True
  then have "nat r < n" by linarith
  then show ?thesis by (auto simp: cellAt_def emptyGrid_def)
next
  case False
  then show ?thesis by (auto simp: cellAt_def emptyGrid_def)
qed

text \<open>Writes whose value is a function of the cell written: the order of the writes is immaterial.\<close>

lemma fold_setCell_length [simp]:
  "length (fold (\<lambda>x g'. setCell g' (fr x) (fc x) (val x)) xs g) = length g"
  by (induction xs arbitrary: g) auto

lemma fold_setCell_square:
  "square g \<Longrightarrow> square (fold (\<lambda>x g'. setCell g' (fr x) (fc x) (val x)) xs g)"
  by (induction xs arbitrary: g) (auto simp: square_setCell)

lemma fold_setCell_cellAt:
  assumes "square g" and "\<forall>x \<in> set xs. val x = V (fr x) (fc x)"
  shows "cellAt (fold (\<lambda>x g'. setCell g' (fr x) (fc x) (val x)) xs g) r c =
         (if (\<exists>x \<in> set xs. fr x = r \<and> fc x = c) \<and> inGrid g r c then V r c else cellAt g r c)"
  using assms
proof (induction xs arbitrary: g)
  case Nil
  show ?case by simp
next
  case (Cons x xs)
  have sq: "square (setCell g (fr x) (fc x) (val x))" using Cons.prems(1) by (rule square_setCell)
  have vals: "\<forall>y \<in> set xs. val y = V (fr y) (fc y)" using Cons.prems(2) by simp
  have vx: "val x = V (fr x) (fc x)" using Cons.prems(2) by simp
  show ?case
    using Cons.IH[OF sq vals] Cons.prems(1) vx
    by (auto simp: cellAt_setCell)
qed

lemma fold_product:
  "fold (\<lambda>r s. fold (\<lambda>c s'. f r c s') cs s) rs s0 = fold (\<lambda>(r, c) s. f r c s) (List.product rs cs) s0"
proof (induction rs arbitrary: s0)
  case Nil
  show ?case by simp
next
  case (Cons r rs)
  have "fold (\<lambda>(r, c). f r c) (map (Pair r) cs) s0 = fold (f r) cs s0"
    by (simp add: fold_map comp_def)
  with Cons show ?case by simp
qed

subsection \<open>Placing a word\<close>

lemma inBounds_inGrid:
  "inBounds g w r c d \<Longrightarrow> i < length w \<Longrightarrow> inGrid g (cellRow d r i) (cellCol d c i)"
  by (auto simp: inBounds_def inGrid_def cellRow_def cellCol_def Let_def split: if_splits)

lemma inSpan_inGrid: "inBounds g w r c d \<Longrightarrow> inSpan w r c d r' c' \<Longrightarrow> inGrid g r' c'"
  by (auto simp: inSpan_def inBounds_inGrid)

lemma length_placeWord [simp]: "length (placeWord g w r c d) = length g"
  by (simp add: placeWord_def)

lemma inBounds_placeWord [simp]:
  "inBounds (placeWord g w r c d) w' r' c' d' = inBounds g w' r' c' d'"
  by (simp add: inBounds_def)

lemma square_placeWord: "square g \<Longrightarrow> square (placeWord g w r c d)"
  by (simp add: placeWord_def fold_setCell_square)

lemma cellAt_placeWord:
  assumes "square g" and "inBounds g w r c d"
  shows "cellAt (placeWord g w r c d) r' c' =
         (if inSpan w r c d r' c'
          then Some (w ! nat (if d = Across then c' - c else r' - r))
          else cellAt g r' c')"
proof -
  let ?V = "\<lambda>r' c'. Some (w ! nat (if d = Across then c' - c else r' - r))"
  have vals: "\<forall>i \<in> set [0..<length w]. Some (w ! i) = ?V (cellRow d r i) (cellCol d c i)"
    by (simp add: cellRow_def cellCol_def)
  have "((\<exists>i \<in> set [0..<length w]. cellRow d r i = r' \<and> cellCol d c i = c') \<and> inGrid g r' c')
        = inSpan w r c d r' c'"
    using assms(2) by (auto simp: inSpan_def inBounds_inGrid)
  then show ?thesis
    unfolding placeWord_def
    using fold_setCell_cellAt[where val = "\<lambda>i. Some (w ! i)" and V = ?V
        and fr = "cellRow d r" and fc = "cellCol d c" and xs = "[0..<length w]"
        and r = r' and c = c', OF assms(1) vals]
    by simp
qed

lemma cellAt_placeWord_letter:
  assumes "square g" and "inBounds g w r c d" and "i < length w"
  shows "cellAt (placeWord g w r c d) (cellRow d r i) (cellCol d c i) = Some (w ! i)"
proof -
  have "inSpan w r c d (cellRow d r i) (cellCol d c i)"
    using assms(3) by (auto simp: inSpan_def)
  then show ?thesis
    using cellAt_placeWord[OF assms(1,2)] by (simp add: cellRow_def cellCol_def)
qed

lemma canPlaceWord_inBounds: "canPlaceWord g w r c d \<Longrightarrow> inBounds g w r c d"
  by (simp add: canPlaceWord_def split: if_splits)

lemma canPlaceWord_cell:
  assumes "canPlaceWord g w r c d" and "i < length w"
  shows "cellAt g (cellRow d r i) (cellCol d c i) = None \<or>
         cellAt g (cellRow d r i) (cellCol d c i) = Some (w ! i)"
proof -
  have "cellOk g w r c d i"
    using assms by (auto simp: canPlaceWord_def list_all_iff split: if_splits)
  then show ?thesis by (auto simp: cellOk_def Let_def split: if_splits)
qed

text \<open>A letter that was on the grid before a word was placed is still there afterwards.\<close>

lemma placeWord_keeps:
  assumes "square g" and "canPlaceWord g w r c d" and "cellAt g r' c' = Some x"
  shows "cellAt (placeWord g w r c d) r' c' = Some x"
proof (cases "inSpan w r c d r' c'")
  case False
  then show ?thesis
    using cellAt_placeWord[OF assms(1) canPlaceWord_inBounds[OF assms(2)]] assms(3) by simp
next
  case True
  then obtain i where i: "i < length w" "cellRow d r i = r'" "cellCol d c i = c'"
    by (auto simp: inSpan_def)
  have "cellAt g r' c' = Some (w ! i)"
    using canPlaceWord_cell[OF assms(2) i(1)] assms(3) i(2,3) by auto
  moreover have "cellAt (placeWord g w r c d) r' c' = Some (w ! i)"
    using cellAt_placeWord_letter[OF assms(1) canPlaceWord_inBounds[OF assms(2)] i(1)] i(2,3)
    by simp
  ultimately show ?thesis using assms(3) by simp
qed

lemma consistent_placeWord:
  assumes "consistent g ps" and "canPlaceWord g (word b) (row b) (col b) (direction b)"
  shows "consistent (placeWord g (word b) (row b) (col b) (direction b)) (ps @ [b])"
proof -
  let ?g' = "placeWord g (word b) (row b) (col b) (direction b)"
  have sq: "square g" using assms(1) by (simp add: consistent_def)
  have ib: "inBounds g (word b) (row b) (col b) (direction b)"
    using assms(2) by (rule canPlaceWord_inBounds)
  have old: "onGrid ?g' (word p) (row p) (col p) (direction p)" if "p \<in> set ps" for p
  proof -
    have "onGrid g (word p) (row p) (col p) (direction p)"
      using assms(1) that by (simp add: consistent_def)
    then show ?thesis
      unfolding onGrid_def using placeWord_keeps[OF sq assms(2)] by simp
  qed
  have new: "onGrid ?g' (word b) (row b) (col b) (direction b)"
    unfolding onGrid_def using cellAt_placeWord_letter[OF sq ib] ib by simp
  have cov: "\<exists>p \<in> set (ps @ [b]). inSpan (word p) (row p) (col p) (direction p) r c"
    if "cellAt ?g' r c \<noteq> None" for r c
  proof (cases "inSpan (word b) (row b) (col b) (direction b) r c")
    case True
    then show ?thesis by auto
  next
    case False
    then have "cellAt g r c \<noteq> None"
      using that cellAt_placeWord[OF sq ib, of r c] by simp
    then show ?thesis using assms(1) by (auto simp: consistent_def)
  qed
  show ?thesis
    unfolding consistent_def using square_placeWord[OF sq] old new cov by auto
qed

subsection \<open>Candidates and the placement loop\<close>

lemma findIntersections_iff:
  "(i, j) \<in> set (findIntersections a b) \<longleftrightarrow> i < length a \<and> j < length b \<and> a ! i = b ! j"
  by (auto simp: findIntersections_def split: if_splits)

text \<open>What is known of a candidate: it is the current word, laid across a placed word at a
  shared letter, and it has passed \<open>canPlaceWord\<close>.\<close>

lemma candidatesFor_D:
  assumes "b \<in> set (candidatesFor g cw ps p)"
  shows "word b = word cw \<and> clue b = clue cw \<and>
         canPlaceWord g (word cw) (row b) (col b) (direction b) \<and>
         score b = scorePlacement g (word cw) (row b) (col b) (direction b) ps \<and>
         (\<exists>i j. i < length (word cw) \<and> j < length (word p) \<and> word cw ! i = word p ! j \<and>
                cellRow (direction b) (row b) i = cellRow (direction p) (row p) j \<and>
                cellCol (direction b) (col b) i = cellCol (direction p) (col p) j)"
proof -
  from assms obtain i j where ij: "(i, j) \<in> set (findIntersections (word cw) (word p))"
    and b: "b \<in> set (let d = (if direction p = Across then Down else Across);
            r = (if d = Across then row p + int j else row p - int i);
            c = (if d = Across then col p - int i else col p + int j)
        in if canPlaceWord g (word cw) r c d
           then [\<lparr>word = word cw, clue = clue cw, row = r, col = c, direction = d,
                  score = scorePlacement g (word cw) r c d ps\<rparr>]
           else [])"
    unfolding candidatesFor_def by auto
  from ij have ij': "i < length (word cw)" "j < length (word p)" "word cw ! i = word p ! j"
    by (simp_all add: findIntersections_iff)
  show ?thesis
  proof (cases "direction p")
    case Across
    with b ij' show ?thesis
      by (auto simp: Let_def cellRow_def cellCol_def split: if_splits intro!: exI[of _ i] exI[of _ j])
  next
    case Down
    with b ij' show ?thesis
      by (auto simp: Let_def cellRow_def cellCol_def split: if_splits intro!: exI[of _ i] exI[of _ j])
  qed
qed

lemma collectCandidates_D:
  assumes "b \<in> set (collectCandidates g cw ps)"
  shows "word b = word cw \<and> clue b = clue cw \<and>
         canPlaceWord g (word cw) (row b) (col b) (direction b) \<and>
         score b = scorePlacement g (word cw) (row b) (col b) (direction b) ps \<and>
         (\<exists>p \<in> set ps. \<exists>i j. i < length (word cw) \<and> j < length (word p) \<and>
                word cw ! i = word p ! j \<and>
                cellRow (direction b) (row b) i = cellRow (direction p) (row p) j \<and>
                cellCol (direction b) (col b) i = cellCol (direction p) (col p) j)"
proof -
  from assms obtain p where p: "p \<in> set ps" "b \<in> set (candidatesFor g cw ps p)"
    by (auto simp: collectCandidates_def)
  from candidatesFor_D[OF p(2)] p(1) show ?thesis by blast
qed

lemma hd_sort_key_in_set: "xs \<noteq> [] \<Longrightarrow> hd (sort_key f xs) \<in> set xs"
proof -
  assume "xs \<noteq> []"
  then have "sort_key f xs \<noteq> []" by (metis length_sort length_0_conv)
  then have "hd (sort_key f xs) \<in> set (sort_key f xs)" by (rule hd_in_set)
  then show ?thesis by (simp only: set_sort)
qed

lemma selectBest_Some:
  "selectBest m cs = Some b \<Longrightarrow> b \<in> set cs \<and> m \<le> score b"
  by (auto simp: selectBest_def Let_def hd_sort_key_in_set split: if_splits)

lemma findPlacement_Some:
  "fst (findPlacement opts g cw ps k) = Some b \<Longrightarrow> b \<in> set (collectCandidates g cw ps)"
proof (induction opts g cw ps k rule: findPlacement.induct)
  case (1 opts g cw ps k)
  show ?case
  proof (cases "k < maxAttempts opts")
    case False
    with "1.prems" show ?thesis by (simp add: findPlacement.simps[of opts g cw ps k])
  next
    case True
    show ?thesis
    proof (cases "selectBest (minIntersections opts) (collectCandidates g cw ps)")
      case None
      with True "1.prems" "1.IH" show ?thesis
        by (simp add: findPlacement.simps[of opts g cw ps k])
    next
      case (Some b')
      with True "1.prems" have "b' = b" by (simp add: findPlacement.simps[of opts g cw ps k])
      with Some show ?thesis using selectBest_Some by blast
    qed
  qed
qed

lemma placeRemaining_consistent:
  assumes "consistent g ps" and "placeRemaining opts ws (g, ps) = (g', ps')"
  shows "consistent g' ps' \<and> length g' = length g \<and> (\<exists>qs. ps' = ps @ qs)"
  using assms
proof (induction ws arbitrary: g ps)
  case Nil
  then show ?case by simp
next
  case (Cons cw ws)
  show ?case
  proof (cases "fst (findPlacement opts g cw ps 0)")
    case None
    with Cons.prems(2) have "placeRemaining opts ws (g, ps) = (g', ps')" by simp
    from Cons.IH[OF Cons.prems(1) this] show ?thesis .
  next
    case (Some b)
    from collectCandidates_D[OF findPlacement_Some[OF Some]]
    have wb: "word b = word cw"
      and can: "canPlaceWord g (word b) (row b) (col b) (direction b)" by simp_all
    have cons': "consistent (placeWord g (word cw) (row b) (col b) (direction b)) (ps @ [b])"
      using consistent_placeWord[OF Cons.prems(1) can] wb by simp
    from Cons.prems(2) Some
    have "placeRemaining opts ws
            (placeWord g (word cw) (row b) (col b) (direction b), ps @ [b]) = (g', ps')"
      by simp
    from Cons.IH[OF cons' this] show ?thesis by auto
  qed
qed

lemma anchor_inBounds:
  "inBounds (emptyGrid (initialGridSize fw)) (word fw)
     (row (anchorPlacement fw)) (col (anchorPlacement fw)) Across"
  by (auto simp: inBounds_def anchorPlacement_def initialGridSize_def Let_def)

lemma anchor_consistent:
  "consistent (placeWord (emptyGrid (initialGridSize fw)) (word fw)
                 (row (anchorPlacement fw)) (col (anchorPlacement fw)) Across)
              [anchorPlacement fw]"
proof -
  let ?a = "anchorPlacement fw"
  let ?g0 = "emptyGrid (initialGridSize fw)"
  have a: "word ?a = word fw" "direction ?a = Across"
    by (simp_all add: anchorPlacement_def Let_def)
  have sq: "square ?g0" by simp
  note ib = anchor_inBounds[of fw]
  have "onGrid (placeWord ?g0 (word fw) (row ?a) (col ?a) Across) (word fw) (row ?a) (col ?a) Across"
    unfolding onGrid_def using cellAt_placeWord_letter[OF sq ib] ib by simp
  moreover have "inSpan (word fw) (row ?a) (col ?a) Across r c"
    if "cellAt (placeWord ?g0 (word fw) (row ?a) (col ?a) Across) r c \<noteq> None" for r c
    using that cellAt_placeWord[OF sq ib, of r c] by (simp split: if_splits)
  ultimately show ?thesis
    unfolding consistent_def using square_placeWord[OF sq] a by auto
qed

lemma placeAll_consistent:
  assumes "placeAll opts fw rest = (g, ps)"
  shows "consistent g ps \<and> length g = initialGridSize fw \<and> (\<exists>qs. ps = anchorPlacement fw # qs)"
proof -
  from assms have "placeRemaining opts rest
      (placeWord (emptyGrid (initialGridSize fw)) (word fw)
         (row (anchorPlacement fw)) (col (anchorPlacement fw)) Across, [anchorPlacement fw])
      = (g, ps)"
    by (simp add: placeAll_def Let_def)
  from placeRemaining_consistent[OF anchor_consistent this] show ?thesis by auto
qed

subsection \<open>The score of a candidate\<close>

lemma placeRemaining_append:
  "placeRemaining opts (xs @ ys) st = placeRemaining opts ys (placeRemaining opts xs st)"
proof (induction xs arbitrary: st)
  case Nil
  show ?case by simp
next
  case (Cons x xs)
  obtain g ps where st: "st = (g, ps)" by (cases st)
  show ?case unfolding st by (simp add: Cons split: option.splits)
qed

lemma intersectionScore_nonneg: "0 \<le> intersectionScore g w r c d"
  by (simp add: intersectionScore_def fold_hits)

lemma intersectionScore_hit:
  assumes "i < length w" and "cellAt g (cellRow d r i) (cellCol d c i) = Some (w ! i)"
  shows "10 \<le> intersectionScore g w r c d"
proof -
  have "i \<in> set (filter (\<lambda>i. cellAt g (cellRow d r i) (cellCol d c i) = Some (w ! i)) [0..<length w])"
    using assms by simp
  then have "0 < length (filter (\<lambda>i. cellAt g (cellRow d r i) (cellCol d c i) = Some (w ! i)) [0..<length w])"
    by (rule length_pos_if_in_set)
  then have "1 \<le> int (length (filter (\<lambda>i. cellAt g (cellRow d r i) (cellCol d c i) = Some (w ! i)) [0..<length w]))"
    by linarith
  then show ?thesis unfolding intersectionScore_def fold_hits by linarith
qed

lemma scoreBeforePenalty_ge: "intersectionScore g w r c d \<le> scoreBeforePenalty g w r c d ps"
  by (simp add: scoreBeforePenalty_def Let_def)

text \<open>On a consistent grid the crossing cell of a candidate already holds the shared letter.\<close>

lemma candidate_hit:
  assumes "consistent g ps" and "b \<in> set (collectCandidates g cw ps)"
  shows "10 \<le> intersectionScore g (word cw) (row b) (col b) (direction b)"
proof -
  from collectCandidates_D[OF assms(2)] obtain p i j where
    p: "p \<in> set ps" and i: "i < length (word cw)" and j: "j < length (word p)"
    and eq: "word cw ! i = word p ! j"
    and rc: "cellRow (direction b) (row b) i = cellRow (direction p) (row p) j"
            "cellCol (direction b) (col b) i = cellCol (direction p) (col p) j"
    by blast
  have "onGrid g (word p) (row p) (col p) (direction p)"
    using assms(1) p by (simp add: consistent_def)
  then have "cellAt g (cellRow (direction p) (row p) j) (cellCol (direction p) (col p) j)
             = Some (word p ! j)"
    using j by (simp add: onGrid_def)
  then have "cellAt g (cellRow (direction b) (row b) i) (cellCol (direction b) (col b) i)
             = Some (word cw ! i)"
    using rc eq by simp
  with i show ?thesis by (rule intersectionScore_hit)
qed

lemma candidate_score:
  assumes "consistent g ps" and "b \<in> set (collectCandidates g cw ps)"
  shows "10 \<le> scoreBeforePenalty g (word cw) (row b) (col b) (direction b) ps"
    and "score b = scoreBeforePenalty g (word cw) (row b) (col b) (direction b) ps"
proof -
  show ge: "10 \<le> scoreBeforePenalty g (word cw) (row b) (col b) (direction b) ps"
    using candidate_hit[OF assms] scoreBeforePenalty_ge[of g "word cw" "row b" "col b" "direction b" ps]
    by linarith
  have "score b = scorePlacement g (word cw) (row b) (col b) (direction b) ps"
    using collectCandidates_D[OF assms(2)] by simp
  with ge show "score b = scoreBeforePenalty g (word cw) (row b) (col b) (direction b) ps"
    by (simp add: scorePlacement_def Let_def)
qed

lemma selectBest_accepts:
  assumes "consistent g ps" and "collectCandidates g cw ps \<noteq> []" and "m \<le> 10"
  shows "selectBest m (collectCandidates g cw ps) =
         Some (hd (sort_key (\<lambda>a. - score a) (collectCandidates g cw ps)))"
proof -
  let ?cs = "collectCandidates g cw ps"
  have "hd (sort_key (\<lambda>a. - score a) ?cs) \<in> set ?cs"
    using assms(2) by (rule hd_sort_key_in_set)
  from candidate_score[OF assms(1) this] have "10 \<le> score (hd (sort_key (\<lambda>a. - score a) ?cs))"
    by simp
  with assms(2,3) show ?thesis by (simp add: selectBest_def Let_def)
qed

text \<open>
  Claim C10. Let \<open>(g, ps)\<close> be the grid and the placed words of \<open>generateCrossword\<close> after the
  anchor and any list \<open>placedBefore\<close> of further words have been processed, and let \<open>b\<close> be a
  candidate collected there for the next word. Then the crossing cell already holds the shared
  letter, so the score before the penalty is at least 10, the penalty is not applied, and the
  candidate's score is at least 10. With \<open>minIntersections = 1\<close>, and \<open>maxAttempts\<close> positive so
  that the retry loop has a first round, that round accepts the best candidate.
\<close>

theorem candidate_accepted_first_iteration:
  assumes "placeAll opts firstWord placedBefore = (g, ps)"
      and "b \<in> set (collectCandidates g currentWord ps)"
  shows "10 \<le> scoreBeforePenalty g (word currentWord) (row b) (col b) (direction b) ps \<and>
         score b = scoreBeforePenalty g (word currentWord) (row b) (col b) (direction b) ps \<and>
         10 \<le> score b \<and>
         (0 < maxAttempts opts \<and> minIntersections opts = 1 \<longrightarrow>
            findPlacement opts g currentWord ps 0 =
              (Some (hd (sort_key (\<lambda>a. - score a) (collectCandidates g currentWord ps))), 1))"
proof -
  have cons: "consistent g ps" using placeAll_consistent[OF assms(1)] by simp
  have ne: "collectCandidates g currentWord ps \<noteq> []" using assms(2) by auto
  have "findPlacement opts g currentWord ps 0 =
          (Some (hd (sort_key (\<lambda>a. - score a) (collectCandidates g currentWord ps))), 1)"
    if "0 < maxAttempts opts" "minIntersections opts = 1"
    using that selectBest_accepts[OF cons ne, of 1]
    by (simp add: findPlacement.simps[of opts g currentWord ps 0])
  then show ?thesis using candidate_score[OF cons assms(2)] by simp
qed

theorem candidate_accepted_first_iteration_witness:
  "placeAll defaultOptions \<lparr>word = ''CAT'', clue = ''pet''\<rparr> [] =
     (placeWord (emptyGrid 30) ''CAT'' 15 13 Across,
      [\<lparr>word = ''CAT'', clue = ''pet'', row = 15, col = 13, direction = Across, score = 0\<rparr>]) \<and>
   \<lparr>word = ''ARM'', clue = ''limb'', row = 15, col = 14, direction = Down, score = 20\<rparr>
     \<in> set (collectCandidates (placeWord (emptyGrid 30) ''CAT'' 15 13 Across)
              \<lparr>word = ''ARM'', clue = ''limb''\<rparr>
              [\<lparr>word = ''CAT'', clue = ''pet'', row = 15, col = 13, direction = Across, score = 0\<rparr>]) \<and>
   findPlacement defaultOptions (placeWord (emptyGrid 30) ''CAT'' 15 13 Across)
     \<lparr>word = ''ARM'', clue = ''limb''\<rparr>
     [\<lparr>word = ''CAT'', clue = ''pet'', row = 15, col = 13, direction = Across, score = 0\<rparr>] 0 =
     (Some \<lparr>word = ''ARM'', clue = ''limb'', row = 15, col = 14, direction = Down, score = 20\<rparr>, 1)"
proof -
  let ?g = "placeWord (emptyGrid 30) ''CAT'' 15 13 Across"
  let ?a = "\<lparr>word = ''CAT'', clue = ''pet'', row = 15, col = 13, direction = Across, score = 0\<rparr>"
  let ?cw = "\<lparr>word = ''ARM'', clue = ''limb''\<rparr>"
  let ?b = "\<lparr>word = ''ARM'', clue = ''limb'', row = 15, col = 14, direction = Down, score = 20\<rparr>"
  have h1: "placeAll defaultOptions \<lparr>word = ''CAT'', clue = ''pet''\<rparr> [] = (?g, [?a])"
    by (simp add: placeAll_def anchorPlacement_def initialGridSize_def Let_def)
  have h2: "?b \<in> set (collectCandidates ?g ?cw [?a])" by code_simp
  have h3: "hd (sort_key (\<lambda>a. - score a) (collectCandidates ?g ?cw [?a])) = ?b" by code_simp
  show ?thesis
    using candidate_accepted_first_iteration[OF h1 h2] h1 h2 h3
    by (simp add: defaultOptions_def)
qed

subsection \<open>The bounds found by compactGrid\<close>

lemma findBounds_product:
  "findBounds g =
     fold (\<lambda>(r, c) b. boundsStep g r c b) (List.product [0..<length g] [0..<length g])
       (int (length g), -1, int (length g), -1)"
  by (simp add: findBounds_def Let_def fold_product)

text \<open>The scan keeps four independent running bounds.\<close>

lemma boundsScan_components:
  "fold (\<lambda>(r, c) b. boundsStep g r c b) xs (a0, b0, c0, d0) =
     (fold (\<lambda>x a. if cellAt g (int (fst x)) (int (snd x)) \<noteq> None then min a (int (fst x)) else a) xs a0,
      fold (\<lambda>x a. if cellAt g (int (fst x)) (int (snd x)) \<noteq> None then max a (int (fst x)) else a) xs b0,
      fold (\<lambda>x a. if cellAt g (int (fst x)) (int (snd x)) \<noteq> None then min a (int (snd x)) else a) xs c0,
      fold (\<lambda>x a. if cellAt g (int (fst x)) (int (snd x)) \<noteq> None then max a (int (snd x)) else a) xs d0)"
proof (induction xs arbitrary: a0 b0 c0 d0)
  case Nil
  show ?case by simp
next
  case (Cons x xs)
  obtain r c where x: "x = (r, c)" by (cases x)
  have step: "boundsStep g r c (a0, b0, c0, d0) =
      (if cellAt g (int r) (int c) \<noteq> None
       then (min a0 (int r), max b0 (int r), min c0 (int c), max d0 (int c))
       else (a0, b0, c0, d0))"
    by (simp add: boundsStep_def)
  show ?case
    unfolding x by (cases "cellAt g (int r) (int c) \<noteq> None") (simp_all add: step Cons)
qed

lemma fold_min_bound:
  fixes f :: "'a \<Rightarrow> int"
  shows "fold (\<lambda>x a. if P x then min a (f x) else a) xs a0 \<le> a0 \<and>
         (\<forall>x \<in> set xs. P x \<longrightarrow> fold (\<lambda>x a. if P x then min a (f x) else a) xs a0 \<le> f x) \<and>
         (fold (\<lambda>x a. if P x then min a (f x) else a) xs a0 = a0 \<or>
          (\<exists>x \<in> set xs. P x \<and> fold (\<lambda>x a. if P x then min a (f x) else a) xs a0 = f x))"
proof (induction xs rule: rev_induct)
  case Nil
  show ?case by simp
next
  case (snoc y ys)
  let ?m = "fold (\<lambda>x a. if P x then min a (f x) else a) ys a0"
  show ?case
  proof (cases "P y")
    case False
    with snoc show ?thesis by auto
  next
    case True
    then have eq: "fold (\<lambda>x a. if P x then min a (f x) else a) (ys @ [y]) a0 = min ?m (f y)"
      by simp
    show ?thesis
    proof (cases "?m \<le> f y")
      case le: True
      then have "min ?m (f y) = ?m" by simp
      with snoc eq True le show ?thesis by auto
    next
      case gt: False
      then have m: "min ?m (f y) = f y" by simp
      have "f y \<le> a0" using snoc gt by linarith
      moreover have "\<forall>x \<in> set ys. P x \<longrightarrow> f y \<le> f x" using snoc gt by fastforce
      ultimately show ?thesis unfolding eq m using True by auto
    qed
  qed
qed

lemma fold_max_bound:
  fixes f :: "'a \<Rightarrow> int"
  shows "a0 \<le> fold (\<lambda>x a. if P x then max a (f x) else a) xs a0 \<and>
         (\<forall>x \<in> set xs. P x \<longrightarrow> f x \<le> fold (\<lambda>x a. if P x then max a (f x) else a) xs a0) \<and>
         (fold (\<lambda>x a. if P x then max a (f x) else a) xs a0 = a0 \<or>
          (\<exists>x \<in> set xs. P x \<and> fold (\<lambda>x a. if P x then max a (f x) else a) xs a0 = f x))"
proof (induction xs rule: rev_induct)
  case Nil
  show ?case by simp
next
  case (snoc y ys)
  let ?m = "fold (\<lambda>x a. if P x then max a (f x) else a) ys a0"
  show ?case
  proof (cases "P y")
    case False
    with snoc show ?thesis by auto
  next
    case True
    then have eq: "fold (\<lambda>x a. if P x then max a (f x) else a) (ys @ [y]) a0 = max ?m (f y)"
      by simp
    show ?thesis
    proof (cases "f y \<le> ?m")
      case le: True
      then have "max ?m (f y) = ?m" by simp
      with snoc eq True le show ?thesis by auto
    next
      case gt: False
      then have m: "max ?m (f y) = f y" by simp
      have "a0 \<le> f y" using snoc gt by linarith
      moreover have "\<forall>x \<in> set ys. P x \<longrightarrow> f x \<le> f y" using snoc gt by fastforce
      ultimately show ?thesis unfolding eq m using True by auto
    qed
  qed
qed

lemma content_scanned:
  assumes "square g" and "cellAt g r c \<noteq> None"
  shows "(nat r, nat c) \<in> set (List.product [0..<length g] [0..<length g]) \<and>
         int (nat r) = r \<and> int (nat c) = c"
proof -
  have "inGrid g r c" using assms by (rule cellAt_Some_inGrid)
  then show ?thesis by (auto simp: inGrid_def)
qed

lemma findBounds_isBounds:
  assumes sq: "square g" and content: "hasContent g" and fb: "findBounds g = (a, b, c, d)"
  shows "isBounds g a b c d"
proof -
  let ?xs = "List.product [0..<length g] [0..<length g]"
  let ?P = "\<lambda>x. cellAt g (int (fst x)) (int (snd x)) \<noteq> None"
  let ?n = "int (length g)"
  from fb have a: "a = fold (\<lambda>x a. if ?P x then min a (int (fst x)) else a) ?xs ?n"
    and b: "b = fold (\<lambda>x a. if ?P x then max a (int (fst x)) else a) ?xs (-1)"
    and c: "c = fold (\<lambda>x a. if ?P x then min a (int (snd x)) else a) ?xs ?n"
    and d: "d = fold (\<lambda>x a. if ?P x then max a (int (snd x)) else a) ?xs (-1)"
    unfolding findBounds_product boundsScan_components by simp_all
  note A = fold_min_bound[of ?P "\<lambda>x. int (fst x)" ?xs ?n, folded a]
  note B = fold_max_bound[of "-1" ?P "\<lambda>x. int (fst x)" ?xs, folded b]
  note C = fold_min_bound[of ?P "\<lambda>x. int (snd x)" ?xs ?n, folded c]
  note D = fold_max_bound[of "-1" ?P "\<lambda>x. int (snd x)" ?xs, folded d]
  have within: "a \<le> r \<and> r \<le> b \<and> c \<le> cc \<and> cc \<le> d" if "cellAt g r cc \<noteq> None" for r cc
  proof -
    from content_scanned[OF sq that]
    have mem: "(nat r, nat cc) \<in> set ?xs" and r: "int (nat r) = r" and cc: "int (nat cc) = cc"
      by simp_all
    have P: "?P (nat r, nat cc)" using that r cc by simp
    from A mem P have "a \<le> int (fst (nat r, nat cc))" by blast
    moreover from B mem P have "int (fst (nat r, nat cc)) \<le> b" by blast
    moreover from C mem P have "c \<le> int (snd (nat r, nat cc))" by blast
    moreover from D mem P have "int (snd (nat r, nat cc)) \<le> d" by blast
    ultimately show ?thesis using r cc by simp
  qed
  from content obtain r0 c0 where rc0: "cellAt g r0 c0 \<noteq> None" by (auto simp: hasContent_def)
  have in0: "inGrid g r0 c0" using sq rc0 by (rule cellAt_Some_inGrid)
  from within[OF rc0] in0 have "a \<noteq> ?n" "b \<noteq> -1" "c \<noteq> ?n" "d \<noteq> -1"
    by (auto simp: inGrid_def)
  with A B C D have
    "\<exists>x \<in> set ?xs. ?P x \<and> a = int (fst x)" "\<exists>x \<in> set ?xs. ?P x \<and> b = int (fst x)"
    "\<exists>x \<in> set ?xs. ?P x \<and> c = int (snd x)" "\<exists>x \<in> set ?xs. ?P x \<and> d = int (snd x)"
    by blast+
  then have "\<exists>cc. cellAt g a cc \<noteq> None" "\<exists>cc. cellAt g b cc \<noteq> None"
    "\<exists>r. cellAt g r c \<noteq> None" "\<exists>r. cellAt g r d \<noteq> None"
    by blast+
  with within show ?thesis unfolding isBounds_def by blast
qed

lemma findBounds_no_content:
  assumes "\<not> hasContent g"
  shows "findBounds g = (int (length g), -1, int (length g), -1)"
proof -
  let ?xs = "List.product [0..<length g] [0..<length g]"
  let ?P = "\<lambda>x. cellAt g (int (fst x)) (int (snd x)) \<noteq> None"
  have noP: "\<And>x. \<not> ?P x" using assms by (simp add: hasContent_def)
  have idle: "fold (\<lambda>x a. a) xs a0 = a0" for xs :: "(nat \<times> nat) list" and a0 :: int
    by (induction xs) simp_all
  show ?thesis
    unfolding findBounds_product boundsScan_components
    using noP by (simp add: idle)
qed

lemma isBounds_unique:
  assumes "isBounds g a b c d" and "isBounds g a' b' c' d'"
  shows "a' = a \<and> b' = b \<and> c' = c \<and> d' = d"
proof -
  from assms have "a \<le> a'" "a' \<le> a" "b \<le> b'" "b' \<le> b" "c \<le> c'" "c' \<le> c" "d \<le> d'" "d' \<le> d"
    unfolding isBounds_def by blast+
  then show ?thesis by simp
qed

lemma isBounds_findBounds:
  assumes "square g" and "isBounds g a b c d"
  shows "findBounds g = (a, b, c, d)"
proof -
  have content: "hasContent g" using assms(2) unfolding isBounds_def hasContent_def by blast
  obtain a' b' c' d' where fb: "findBounds g = (a', b', c', d')" by (metis prod_cases4)
  from isBounds_unique[OF assms(2) findBounds_isBounds[OF assms(1) content fb]] fb
  show ?thesis by simp
qed

lemma isBounds_range:
  assumes "square g" and "isBounds g a b c d"
  shows "0 \<le> a \<and> a \<le> b \<and> b < int (length g) \<and> 0 \<le> c \<and> c \<le> d \<and> d < int (length g)"
proof -
  from assms(2) obtain ca cb rc rd where
    "cellAt g a ca \<noteq> None" "cellAt g b cb \<noteq> None" "cellAt g rc c \<noteq> None" "cellAt g rd d \<noteq> None"
    unfolding isBounds_def by blast
  then have "inGrid g a ca" "inGrid g b cb" "inGrid g rc c" "inGrid g rd d"
    "a \<le> b" "c \<le> d"
    using assms cellAt_Some_inGrid unfolding isBounds_def by blast+
  then show ?thesis by (simp add: inGrid_def)
qed

subsection \<open>compactGrid\<close>

lemma grid_ext:
  assumes "square g" and "square g'" and "length g = length g'"
    and "\<And>r c. cellAt g r c = cellAt g' r c"
  shows "g = g'"
proof (rule nth_equalityI)
  show "length g = length g'" by fact
next
  fix i assume i: "i < length g"
  have li: "length (g ! i) = length g" "length (g' ! i) = length g"
    using assms(1,2,3) i by (simp_all add: square_def list_all_length)
  show "g ! i = g' ! i"
  proof (rule nth_equalityI)
    show "length (g ! i) = length (g' ! i)" using li by simp
  next
    fix j assume j: "j < length (g ! i)"
    have "inGrid g (int i) (int j)" "inGrid g' (int i) (int j)"
      using i j li assms(3) by (simp_all add: inGrid_def)
    then have "cellAt g (int i) (int j) = g ! i ! j" "cellAt g' (int i) (int j) = g' ! i ! j"
      using assms(1,2) by (simp_all add: cellAt_square)
    with assms(4)[of "int i" "int j"] show "g ! i ! j = g' ! i ! j" by simp
  qed
qed

lemma copyContent_fold:
  "copyContent g a b c d ng =
     fold (\<lambda>x s. setCell s (fst x - a) (snd x - c) (cellAt g (fst x) (snd x)))
       (List.product [a..b] [c..d]) ng"
proof -
  have "(\<lambda>(r, ca) s. setCell s (r - a) (ca - c) (cellAt g r ca)) =
        (\<lambda>x s. setCell s (fst x - a) (snd x - c) (cellAt g (fst x) (snd x)))"
    by (auto simp: fun_eq_iff)
  then show ?thesis unfolding copyContent_def fold_product by simp
qed

lemma length_copyContent [simp]: "length (copyContent g a b c d ng) = length ng"
  by (simp add: copyContent_fold)

lemma square_copyContent: "square ng \<Longrightarrow> square (copyContent g a b c d ng)"
  by (simp add: copyContent_fold fold_setCell_square)

lemma cellAt_copyContent:
  assumes "square ng"
  shows "cellAt (copyContent g a b c d ng) i j =
         (if 0 \<le> i \<and> i \<le> b - a \<and> 0 \<le> j \<and> j \<le> d - c \<and> inGrid ng i j
          then cellAt g (i + a) (j + c) else cellAt ng i j)"
proof -
  let ?xs = "List.product [a..b] [c..d]"
  have vals: "\<forall>x \<in> set ?xs. cellAt g (fst x) (snd x) = (\<lambda>i j. cellAt g (i + a) (j + c)) (fst x - a) (snd x - c)"
    by simp
  have ex: "(\<exists>x \<in> set ?xs. fst x - a = i \<and> snd x - c = j) = (0 \<le> i \<and> i \<le> b - a \<and> 0 \<le> j \<and> j \<le> d - c)"
  proof
    assume "\<exists>x \<in> set ?xs. fst x - a = i \<and> snd x - c = j"
    then show "0 \<le> i \<and> i \<le> b - a \<and> 0 \<le> j \<and> j \<le> d - c" by auto
  next
    assume "0 \<le> i \<and> i \<le> b - a \<and> 0 \<le> j \<and> j \<le> d - c"
    then have "(i + a, j + c) \<in> set ?xs" by simp
    then show "\<exists>x \<in> set ?xs. fst x - a = i \<and> snd x - c = j"
      by (intro bexI[of _ "(i + a, j + c)"]) simp_all
  qed
  show ?thesis
    unfolding copyContent_fold
    using fold_setCell_cellAt[where val = "\<lambda>x. cellAt g (fst x) (snd x)"
        and V = "\<lambda>i j. cellAt g (i + a) (j + c)" and fr = "\<lambda>x. fst x - a" and fc = "\<lambda>x. snd x - c"
        and xs = ?xs and r = i and c = j, OF assms vals]
    unfolding ex by simp
qed

text \<open>With content on the grid, \<open>compactGrid\<close> returns, and what it returns is known.\<close>

lemma compactGrid_content:
  assumes "square g" and "isBounds g a b c d"
  shows "compactGrid g ws =
     Inr \<lparr>csize = max (b - a + 1) (d - c + 1),
          cgrid = copyContent g a b c d (emptyGrid (nat (max (b - a + 1) (d - c + 1)))),
          cwords = map (\<lambda>w. w\<lparr>row := row w - a, col := col w - c\<rparr>) ws\<rparr>"
proof -
  have fb: "findBounds g = (a, b, c, d)" using assms by (rule isBounds_findBounds)
  have rg: "0 \<le> a \<and> a \<le> b \<and> b < int (length g) \<and> 0 \<le> c \<and> c \<le> d \<and> d < int (length g)"
    using assms by (rule isBounds_range)
  then have "0 \<le> b - a + 1" by linarith
  then have "0 \<le> max (b - a + 1) (d - c + 1)" by (simp add: le_max_iff_disj)
  with rg have "max 0 a = a" "min (int (length g) - 1) b = b" "max 0 c = c"
    "min (int (length g) - 1) d = d" "\<not> max (b - a + 1) (d - c + 1) < 0"
    by simp_all
  then show ?thesis by (simp add: compactGrid_def Let_def fb)
qed

text \<open>The compacted grid is the old grid moved by \<open>(- minRow, - minCol)\<close>.\<close>

lemma compacted_translation:
  assumes "square g" and "isBounds g a b c d"
  defines "m \<equiv> max (b - a + 1) (d - c + 1)"
  defines "g' \<equiv> copyContent g a b c d (emptyGrid (nat m))"
  shows "square g'" and "int (length g') = m" and "cellAt g' i j = cellAt g (i + a) (j + c)"
proof -
  have rg: "0 \<le> a \<and> a \<le> b \<and> b < int (length g) \<and> 0 \<le> c \<and> c \<le> d \<and> d < int (length g)"
    using assms(1,2) by (rule isBounds_range)
  show "square g'" unfolding g'_def by (rule square_copyContent) simp
  from rg have "0 \<le> b - a + 1" by linarith
  then have mpos: "0 \<le> m" unfolding m_def by (simp add: le_max_iff_disj)
  show len: "int (length g') = m" unfolding g'_def using mpos by simp
  show "cellAt g' i j = cellAt g (i + a) (j + c)"
  proof (cases "0 \<le> i \<and> i \<le> b - a \<and> 0 \<le> j \<and> j \<le> d - c")
    case True
    then have "i < m" "j < m" unfolding m_def by (simp_all add: less_max_iff_disj)
    with True mpos have "inGrid (emptyGrid (nat m)) i j" unfolding inGrid_def by simp
    with True show ?thesis unfolding g'_def by (simp add: cellAt_copyContent)
  next
    case False
    then have "cellAt g (i + a) (j + c) = None"
      using assms(2) unfolding isBounds_def by force
    with False show ?thesis unfolding g'_def by (auto simp: cellAt_copyContent)
  qed
qed

lemma shift_zero: "map (\<lambda>w::WordPlacement. w\<lparr>row := row w - 0, col := col w - 0\<rparr>) ws = ws"
  by (induction ws) simp_all

lemma compactGrid_no_content:
  assumes "\<not> hasContent g"
  shows "compactGrid g ws = (if g = [] then Inr \<lparr>csize = 0, cgrid = [], cwords = ws\<rparr> else Inl RangeError)"
proof (cases "g = []")
  case True
  then show ?thesis
    by (simp add: compactGrid_def findBounds_def copyContent_def emptyGrid_def Let_def shift_zero)
next
  case False
  then have "0 < int (length g)" by simp
  then have "max 0 (int (length g)) = int (length g)" "min (int (length g) - 1) (- 1) = - 1"
    by simp_all
  with False \<open>0 < int (length g)\<close> show ?thesis
    by (simp add: compactGrid_def findBounds_no_content[OF assms] Let_def)
qed

text \<open>The bounds of a compacted grid: the content starts in row 0 and column 0.\<close>

lemma compacted_isBounds:
  assumes "square g" and "isBounds g a b c d"
  shows "isBounds (copyContent g a b c d (emptyGrid (nat (max (b - a + 1) (d - c + 1)))))
           0 (b - a) 0 (d - c)"
proof -
  let ?g' = "copyContent g a b c d (emptyGrid (nat (max (b - a + 1) (d - c + 1))))"
  note tr = compacted_translation(3)[OF assms]
  from assms(2) obtain ca cb rc rd where w:
    "cellAt g a ca \<noteq> None" "cellAt g b cb \<noteq> None" "cellAt g rc c \<noteq> None" "cellAt g rd d \<noteq> None"
    unfolding isBounds_def by blast
  have "cellAt ?g' 0 (ca - c) \<noteq> None" "cellAt ?g' (b - a) (cb - c) \<noteq> None"
    "cellAt ?g' (rc - a) 0 \<noteq> None" "cellAt ?g' (rd - a) (d - c) \<noteq> None"
    using w by (simp_all add: tr)
  moreover have "0 \<le> i \<and> i \<le> b - a \<and> 0 \<le> j \<and> j \<le> d - c" if "cellAt ?g' i j \<noteq> None" for i j
  proof -
    from that have "cellAt g (i + a) (j + c) \<noteq> None" by (simp add: tr)
    with assms(2) have "a \<le> i + a \<and> i + a \<le> b \<and> c \<le> j + c \<and> j + c \<le> d"
      unfolding isBounds_def by blast
    then show ?thesis by simp
  qed
  ultimately show ?thesis unfolding isBounds_def by blast
qed

text \<open>
  Claim C8. Compaction is idempotent: when \<open>compactGrid\<close> returns for a square grid and a list
  of records, applying it to the grid and records it returned gives the same size, the same
  grid and the same records again. (For a grid without any letter and with at least one row
  \<open>compactGrid\<close> does not return: the size it computes is negative.)
\<close>

theorem compactGrid_idempotent:
  assumes "square g" and "compactGrid g ws = Inr out"
  shows "compactGrid (cgrid out) (cwords out) = Inr out"
proof (cases "hasContent g")
  case False
  with assms(2) have "g = []" and out: "out = \<lparr>csize = 0, cgrid = [], cwords = ws\<rparr>"
    by (simp_all add: compactGrid_no_content split: if_splits)
  have "cellAt [] r c = None" for r c by (auto simp: cellAt_def)
  then have "\<not> hasContent []" by (simp add: hasContent_def)
  then show ?thesis unfolding out by (simp add: compactGrid_no_content)
next
  case True
  obtain a b c d where fb: "findBounds g = (a, b, c, d)" by (metis prod_cases4)
  have ib: "isBounds g a b c d" using assms(1) True fb by (rule findBounds_isBounds)
  let ?m = "max (b - a + 1) (d - c + 1)"
  let ?g' = "copyContent g a b c d (emptyGrid (nat ?m))"
  let ?ws' = "map (\<lambda>w. w\<lparr>row := row w - a, col := col w - c\<rparr>) ws"
  have out: "out = \<lparr>csize = ?m, cgrid = ?g', cwords = ?ws'\<rparr>"
    using assms(2) compactGrid_content[OF assms(1) ib, of ws] by simp
  have sq': "square ?g'" and len': "int (length ?g') = ?m"
    using compacted_translation(1,2)[OF assms(1) ib] by simp_all
  have ib': "isBounds ?g' 0 (b - a) 0 (d - c)" using assms(1) ib by (rule compacted_isBounds)
  let ?g'' = "copyContent ?g' 0 (b - a) 0 (d - c) (emptyGrid (nat ?m))"
  have again: "compactGrid ?g' ?ws' = Inr \<lparr>csize = ?m, cgrid = ?g'', cwords = ?ws'\<rparr>"
    using compactGrid_content[OF sq' ib', of ?ws'] by (simp add: shift_zero)
  have "?g'' = ?g'"
  proof (rule grid_ext)
    show "square ?g''" using compacted_translation(1)[OF sq' ib'] by simp
    show "square ?g'" by (rule sq')
    show "length ?g'' = length ?g'" by simp
    show "cellAt ?g'' r cc = cellAt ?g' r cc" for r cc
      using compacted_translation(3)[OF sq' ib', of r cc] by simp
  qed
  with again show ?thesis unfolding out by simp
qed

theorem compactGrid_idempotent_witness:
  "square [[None, None, None], [None, Some CHR ''A'', Some CHR ''B''], [None, None, None]] \<and>
   compactGrid [[None, None, None], [None, Some CHR ''A'', Some CHR ''B''], [None, None, None]]
     [\<lparr>word = ''AB'', clue = ''x'', row = 1, col = 1, direction = Across, score = 0\<rparr>]
   = Inr \<lparr>csize = 2, cgrid = [[Some CHR ''A'', Some CHR ''B''], [None, None]],
          cwords = [\<lparr>word = ''AB'', clue = ''x'', row = 0, col = 0, direction = Across, score = 0\<rparr>]\<rparr> \<and>
   compactGrid [[Some CHR ''A'', Some CHR ''B''], [None, None]]
     [\<lparr>word = ''AB'', clue = ''x'', row = 0, col = 0, direction = Across, score = 0\<rparr>]
   = Inr \<lparr>csize = 2, cgrid = [[Some CHR ''A'', Some CHR ''B''], [None, None]],
          cwords = [\<lparr>word = ''AB'', clue = ''x'', row = 0, col = 0, direction = Across, score = 0\<rparr>]\<rparr>"
proof -
  let ?g = "[[None, None, None], [None, Some CHR ''A'', Some CHR ''B''], [None, None, None]]"
  let ?ws = "[\<lparr>word = ''AB'', clue = ''x'', row = 1, col = 1, direction = Across, score = 0\<rparr>]"
  let ?out = "\<lparr>csize = 2, cgrid = [[Some CHR ''A'', Some CHR ''B''], [None, None]],
          cwords = [\<lparr>word = ''AB'', clue = ''x'', row = 0, col = 0, direction = Across, score = 0\<rparr>]\<rparr>"
  have h1: "square ?g" by (simp add: square_def)
  have h2: "compactGrid ?g ?ws = Inr ?out" by code_simp
  show ?thesis using compactGrid_idempotent[OF h1 h2] h1 h2 by simp
qed

subsection \<open>The result of generateCrossword\<close>

lemma normalizeWords_length: "w \<in> set (normalizeWords ws) \<Longrightarrow> 2 \<le> length (word w)"
  by (auto simp: normalizeWords_def)

lemma set_sortWords [simp]: "set (sortWords xs) = set xs"
  by (simp add: sortWords_def)

lemma length_sortWords [simp]: "length (sortWords xs) = length xs"
  by (simp add: sortWords_def)

lemma sortWords_Nil_iff [simp]: "sortWords xs = [] \<longleftrightarrow> xs = []"
  by (metis length_sortWords length_0_conv)

lemma placementOf_props:
  assumes "normalizeWords ws \<noteq> []" and "placementOf opts ws = (g, ps)"
  shows "consistent g ps \<and> hasContent g \<and>
         (\<exists>fw rest qs. sortWords (normalizeWords ws) = fw # rest \<and>
                        placeAll opts fw rest = (g, ps) \<and> ps = anchorPlacement fw # qs)"
proof -
  from assms(1) obtain fw rest where srt: "sortWords (normalizeWords ws) = fw # rest"
    by (cases "sortWords (normalizeWords ws)") simp_all
  with assms(2) have pa: "placeAll opts fw rest = (g, ps)" by (simp add: placementOf_def)
  from placeAll_consistent[OF pa] obtain qs where
    cons: "consistent g ps" and ps: "ps = anchorPlacement fw # qs" by blast
  have "fw \<in> set (sortWords (normalizeWords ws))" unfolding srt by simp
  then have "fw \<in> set (normalizeWords ws)" by (simp only: set_sortWords)
  then have len: "0 < length (word fw)" using normalizeWords_length by fastforce
  have "onGrid g (word (anchorPlacement fw)) (row (anchorPlacement fw)) (col (anchorPlacement fw))
          (direction (anchorPlacement fw))"
    using cons ps by (simp add: consistent_def)
  then have "cellAt g (cellRow Across (row (anchorPlacement fw)) 0)
                      (cellCol Across (col (anchorPlacement fw)) 0) = Some (word fw ! 0)"
    using len by (simp add: onGrid_def anchorPlacement_def Let_def)
  then have "hasContent g" unfolding hasContent_def by blast
  with cons ps srt pa show ?thesis by blast
qed

lemma generateCrossword_cases:
  "generateCrossword ws opts =
     (if ws = [] \<or> normalizeWords ws = [] then Inr None
      else case placementOf opts ws of (g, ps) \<Rightarrow>
        if int (length ps) < min 3 (int (length (normalizeWords ws))) then Inr None
        else (case compactGrid g ps of
                Inl e \<Rightarrow> Inl e
              | Inr compacted \<Rightarrow>
                  Inr (Some \<lparr>psize = csize compacted,
                             pwords = assignClueNumbers (cwords compacted),
                             pgrid = cgrid compacted\<rparr>)))"
proof (cases "ws = [] \<or> normalizeWords ws = []")
  case True
  then show ?thesis by (auto simp: generateCrossword_def Let_def)
next
  case False
  then obtain fw rest where srt: "sortWords (normalizeWords ws) = fw # rest"
    by (cases "sortWords (normalizeWords ws)") simp_all
  have "length (fw # rest) = length (normalizeWords ws)"
    using length_sortWords[of "normalizeWords ws"] srt by simp
  then have len: "int (length rest) + 1 = int (length (normalizeWords ws))" by simp
  show ?thesis
    using False srt len
    by (simp add: generateCrossword_def Let_def placementOf_def split: prod.splits)
qed

text \<open>A successful run, taken apart.\<close>

lemma generateCrossword_Some:
  assumes "generateCrossword ws opts = Inr (Some P)"
  shows "\<exists>g ps a b c d.
           placementOf opts ws = (g, ps) \<and> consistent g ps \<and> isBounds g a b c d \<and>
           min 3 (int (length (normalizeWords ws))) \<le> int (length ps) \<and>
           P = \<lparr>psize = max (b - a + 1) (d - c + 1),
                pwords = assignClueNumbers (map (\<lambda>w. w\<lparr>row := row w - a, col := col w - c\<rparr>) ps),
                pgrid = copyContent g a b c d (emptyGrid (nat (max (b - a + 1) (d - c + 1))))\<rparr>"
proof -
  from assms have ne: "normalizeWords ws \<noteq> []" "ws \<noteq> []"
    by (auto simp: generateCrossword_cases split: if_splits)
  obtain g ps where po: "placementOf opts ws = (g, ps)" by (cases "placementOf opts ws")
  from placementOf_props[OF ne(1) po] have cons: "consistent g ps" and content: "hasContent g"
    by simp_all
  have sq: "square g" using cons by (simp add: consistent_def)
  obtain a b c d where fb: "findBounds g = (a, b, c, d)" by (metis prod_cases4)
  have ib: "isBounds g a b c d" using sq content fb by (rule findBounds_isBounds)
  from assms ne po compactGrid_content[OF sq ib, of ps]
  have "min 3 (int (length (normalizeWords ws))) \<le> int (length ps) \<and>
        P = \<lparr>psize = max (b - a + 1) (d - c + 1),
             pwords = assignClueNumbers (map (\<lambda>w. w\<lparr>row := row w - a, col := col w - c\<rparr>) ps),
             pgrid = copyContent g a b c d (emptyGrid (nat (max (b - a + 1) (d - c + 1))))\<rparr>"
    by (auto simp: generateCrossword_cases split: if_splits)
  with po cons ib show ?thesis by blast
qed

text \<open>\<open>generateCrossword\<close> never throws, and it fails in exactly three cases.\<close>

lemma generateCrossword_None_iff:
  "generateCrossword ws opts = Inr None \<longleftrightarrow>
     ws = [] \<or> normalizeWords ws = [] \<or>
     int (length (snd (placementOf opts ws))) < min 3 (int (length (normalizeWords ws)))"
proof (cases "ws = [] \<or> normalizeWords ws = []")
  case True
  then show ?thesis by (auto simp: generateCrossword_cases)
next
  case False
  obtain g ps where po: "placementOf opts ws = (g, ps)" by (cases "placementOf opts ws")
  from False placementOf_props[OF _ po] have cons: "consistent g ps" and content: "hasContent g"
    by simp_all
  have sq: "square g" using cons by (simp add: consistent_def)
  obtain a b c d where fb: "findBounds g = (a, b, c, d)" by (metis prod_cases4)
  have ib: "isBounds g a b c d" using sq content fb by (rule findBounds_isBounds)
  show ?thesis
    using False po compactGrid_content[OF sq ib, of ps]
    by (simp add: generateCrossword_cases)
qed

lemma generateCrossword_total:
  "generateCrossword ws opts = Inr None \<or> (\<exists>P. generateCrossword ws opts = Inr (Some P))"
proof (cases "ws = [] \<or> normalizeWords ws = []")
  case True
  then show ?thesis by (auto simp: generateCrossword_cases)
next
  case False
  obtain g ps where po: "placementOf opts ws = (g, ps)" by (cases "placementOf opts ws")
  from False placementOf_props[OF _ po] have cons: "consistent g ps" and content: "hasContent g"
    by simp_all
  have sq: "square g" using cons by (simp add: consistent_def)
  obtain a b c d where fb: "findBounds g = (a, b, c, d)" by (metis prod_cases4)
  have ib: "isBounds g a b c d" using sq content fb by (rule findBounds_isBounds)
  show ?thesis
    using False po compactGrid_content[OF sq ib, of ps]
    by (simp add: generateCrossword_cases)
qed

subsection \<open>The returned puzzle\<close>

lemma assignClueNumbers_from:
  assumes "x \<in> set (assignClueNumbers ws)"
  shows "\<exists>n w. w \<in> set ws \<and> x = toPlacedWord n w"
  using assms unfolding assignClueNumbers_concat[unfolded Let_def, THEN conjunct1] by auto

lemma assignClueNumbers_to:
  assumes "w \<in> set ws"
  shows "\<exists>n. toPlacedWord n w \<in> set (assignClueNumbers ws)"
proof -
  let ?ps = "sorted_list_of_set ((\<lambda>w. (row w, col w)) ` set ws)"
  let ?F = "\<lambda>x. map (toPlacedWord (1 + int (fst x))) (filter (\<lambda>v. (row v, col v) = snd x) ws)"
  have "(row w, col w) \<in> set ?ps" using assms by simp
  then obtain i where i: "i < length ?ps" "?ps ! i = (row w, col w)"
    unfolding in_set_conv_nth by blast
  then have mem: "(i, (row w, col w)) \<in> set (enumerate 0 ?ps)"
    by (simp add: in_set_enumerate_eq)
  have el: "toPlacedWord (1 + int i) w \<in> set (?F (i, (row w, col w)))"
    using assms by simp
  have "assignClueNumbers ws = concat (map ?F (enumerate 0 ?ps))"
    unfolding assignClueNumbers_concat[unfolded Let_def, THEN conjunct1]
    by (simp add: case_prod_unfold)
  then have "set (assignClueNumbers ws) = (\<Union>x \<in> set (enumerate 0 ?ps). set (?F x))"
    by simp
  with UN_I[of "(i, (row w, col w))" "set (enumerate 0 ?ps)" "toPlacedWord (1 + int i) w" "\<lambda>x. set (?F x)", OF mem el]
  show ?thesis by blast
qed

lemma cellRow_shift: "cellRow d (r - a) i + a = cellRow d r i"
  by (simp add: cellRow_def)

lemma cellCol_shift: "cellCol d (c - b) i + b = cellCol d c i"
  by (simp add: cellCol_def)

lemma nonempty_row_col:
  assumes "square g" and "cellAt g r c \<noteq> None"
  shows "\<not> rowEmpty g (nat r)" and "\<not> colEmpty g (nat c)"
proof -
  have ig: "inGrid g r c" using assms by (rule cellAt_Some_inGrid)
  then have cell: "g ! nat r ! nat c \<noteq> None" using assms by (simp add: cellAt_square)
  have r: "nat r < length g" and c: "nat c < length (g ! nat r)"
    using ig assms(1) by (auto simp: inGrid_def square_row)
  from cell c show "\<not> rowEmpty g (nat r)"
    by (auto simp: rowEmpty_def list_all_length)
  from cell r show "\<not> colEmpty g (nat c)"
    by (auto simp: colEmpty_def list_all_length)
qed

text \<open>
  Claim C2. In every puzzle that \<open>generateCrossword\<close> returns, the grid has \<open>size\<close> rows of
  \<open>size\<close> cells each; for every placed word, each cell of its span (the cells of its letters,
  from its start cell along its direction) lies in the grid and holds the letter of the answer
  at that index; and every cell of the grid that holds a letter is a cell of the span of some
  placed word.
\<close>

theorem generated_puzzle_consistent:
  assumes "generateCrossword wordInputs opts = Inr (Some P)"
  shows "int (length (pgrid P)) = psize P \<and>
         (\<forall>r \<in> set (pgrid P). int (length r) = psize P) \<and>
         (\<forall>w \<in> set (pwords P). \<forall>i < length (answer w).
            inGrid (pgrid P) (cellRow (pdirection w) (startRow w) i)
                             (cellCol (pdirection w) (startCol w) i) \<and>
            pgrid P ! nat (cellRow (pdirection w) (startRow w) i)
                    ! nat (cellCol (pdirection w) (startCol w) i) = Some (answer w ! i)) \<and>
         (\<forall>r < length (pgrid P). \<forall>c < length (pgrid P ! r). pgrid P ! r ! c \<noteq> None \<longrightarrow>
            (\<exists>w \<in> set (pwords P). \<exists>i < length (answer w).
               cellRow (pdirection w) (startRow w) i = int r \<and>
               cellCol (pdirection w) (startCol w) i = int c))"
proof -
  from generateCrossword_Some[OF assms] obtain g ps a b c d where
    cons: "consistent g ps" and ib: "isBounds g a b c d"
    and P: "P = \<lparr>psize = max (b - a + 1) (d - c + 1),
                pwords = assignClueNumbers (map (\<lambda>w. w\<lparr>row := row w - a, col := col w - c\<rparr>) ps),
                pgrid = copyContent g a b c d (emptyGrid (nat (max (b - a + 1) (d - c + 1))))\<rparr>"
    by blast
  have sq: "square g" using cons by (simp add: consistent_def)
  have gP: "pgrid P = copyContent g a b c d (emptyGrid (nat (max (b - a + 1) (d - c + 1))))"
    and sP: "psize P = max (b - a + 1) (d - c + 1)"
    and wP: "pwords P = assignClueNumbers (map (\<lambda>w. w\<lparr>row := row w - a, col := col w - c\<rparr>) ps)"
    by (simp_all add: P)
  have sq': "square (pgrid P)" unfolding gP using sq ib by (rule compacted_translation(1))
  have len: "int (length (pgrid P)) = psize P"
    unfolding gP sP using sq ib by (rule compacted_translation(2))
  have tr: "cellAt (pgrid P) i j = cellAt g (i + a) (j + c)" for i j
    unfolding gP using sq ib by (rule compacted_translation(3))
  have rows: "\<forall>r \<in> set (pgrid P). int (length r) = psize P"
    using sq' len by (auto simp: square_def list_all_iff)
  have spans: "inGrid (pgrid P) (cellRow (pdirection x) (startRow x) i)
                                (cellCol (pdirection x) (startCol x) i) \<and>
       pgrid P ! nat (cellRow (pdirection x) (startRow x) i)
               ! nat (cellCol (pdirection x) (startCol x) i) = Some (answer x ! i)"
    if x: "x \<in> set (pwords P)" and i: "i < length (answer x)" for x i
  proof -
    from x wP assignClueNumbers_from obtain n w where
      w: "w \<in> set ps" and xw: "x = toPlacedWord n (w\<lparr>row := row w - a, col := col w - c\<rparr>)"
      by fastforce
    have "onGrid g (word w) (row w) (col w) (direction w)"
      using cons w by (simp add: consistent_def)
    then have "cellAt g (cellRow (direction w) (row w) i) (cellCol (direction w) (col w) i)
               = Some (word w ! i)"
      using i xw by (simp add: onGrid_def toPlacedWord_def)
    then have cell: "cellAt (pgrid P) (cellRow (direction w) (row w - a) i)
                            (cellCol (direction w) (col w - c) i) = Some (word w ! i)"
      by (simp add: tr cellRow_shift cellCol_shift)
    then have "inGrid (pgrid P) (cellRow (direction w) (row w - a) i)
                                (cellCol (direction w) (col w - c) i)"
      using cellAt_Some_inGrid[OF sq'] by simp
    with cell sq' show ?thesis by (simp add: xw toPlacedWord_def cellAt_square)
  qed
  have cover: "\<exists>x \<in> set (pwords P). \<exists>i < length (answer x).
               cellRow (pdirection x) (startRow x) i = int r \<and>
               cellCol (pdirection x) (startCol x) i = int cc"
    if r: "r < length (pgrid P)" and cc: "cc < length (pgrid P ! r)"
      and ne: "pgrid P ! r ! cc \<noteq> None" for r cc
  proof -
    have "cellAt (pgrid P) (int r) (int cc) = pgrid P ! r ! cc"
      unfolding cellAt_def using r cc by simp
    with ne have "cellAt g (int r + a) (int cc + c) \<noteq> None" by (simp add: tr)
    with cons obtain p where p: "p \<in> set ps"
      and sp: "inSpan (word p) (row p) (col p) (direction p) (int r + a) (int cc + c)"
      unfolding consistent_def by blast
    from sp obtain i where i: "i < length (word p)"
      "cellRow (direction p) (row p) i = int r + a" "cellCol (direction p) (col p) i = int cc + c"
      by (auto simp: inSpan_def)
    have "p\<lparr>row := row p - a, col := col p - c\<rparr>
            \<in> set (map (\<lambda>w. w\<lparr>row := row w - a, col := col w - c\<rparr>) ps)"
      using p by simp
    from assignClueNumbers_to[OF this] obtain n where
      n: "toPlacedWord n (p\<lparr>row := row p - a, col := col p - c\<rparr>) \<in> set (pwords P)"
      using wP by auto
    have "cellRow (direction p) (row p - a) i = int r"
      using i(2) cellRow_shift[of "direction p" "row p" a i] by simp
    moreover have "cellCol (direction p) (col p - c) i = int cc"
      using i(3) cellCol_shift[of "direction p" "col p" c i] by simp
    ultimately show ?thesis
      using i(1) by (intro bexI[OF _ n] exI[of _ i]) (simp add: toPlacedWord_def)
  qed
  from len rows spans cover show ?thesis by blast
qed

theorem generated_puzzle_consistent_witness:
  "generateCrossword
     [\<lparr>word = ''area'', clue = ''surface''\<rparr>, \<lparr>word = ''rare'', clue = ''uncommon''\<rparr>,
      \<lparr>word = ''rear'', clue = ''back''\<rparr>]
     defaultOptions =
   Inr (Some \<lparr>psize = 5,
      pwords =
        [\<lparr>number = 1, pword = ''AREA'', pclue = ''surface'', answer = ''AREA'',
           startRow = 0, startCol = 0, pdirection = Across\<rparr>,
         \<lparr>number = 2, pword = ''RARE'', pclue = ''uncommon'', answer = ''RARE'',
           startRow = 0, startCol = 1, pdirection = Down\<rparr>,
         \<lparr>number = 3, pword = ''REAR'', pclue = ''back'', answer = ''REAR'',
           startRow = 2, startCol = 1, pdirection = Across\<rparr>],
      pgrid =
        [[Some CHR ''A'', Some CHR ''R'', Some CHR ''E'', Some CHR ''A'', None],
         [None, Some CHR ''A'', None, None, None],
         [None, Some CHR ''R'', Some CHR ''E'', Some CHR ''A'', Some CHR ''R''],
         [None, Some CHR ''E'', None, None, None],
         [None, None, None, None, None]]\<rparr>) \<and>
   int (length
        [[Some CHR ''A'', Some CHR ''R'', Some CHR ''E'', Some CHR ''A'', None],
         [None, Some CHR ''A'', None, None, None],
         [None, Some CHR ''R'', Some CHR ''E'', Some CHR ''A'', Some CHR ''R''],
         [None, Some CHR ''E'', None, None, None],
         [None :: char option, None, None, None, None]]) = 5"
proof -
  let ?P = "\<lparr>psize = 5,
      pwords =
        [\<lparr>number = 1, pword = ''AREA'', pclue = ''surface'', answer = ''AREA'',
           startRow = 0, startCol = 0, pdirection = Across\<rparr>,
         \<lparr>number = 2, pword = ''RARE'', pclue = ''uncommon'', answer = ''RARE'',
           startRow = 0, startCol = 1, pdirection = Down\<rparr>,
         \<lparr>number = 3, pword = ''REAR'', pclue = ''back'', answer = ''REAR'',
           startRow = 2, startCol = 1, pdirection = Across\<rparr>],
      pgrid =
        [[Some CHR ''A'', Some CHR ''R'', Some CHR ''E'', Some CHR ''A'', None],
         [None, Some CHR ''A'', None, None, None],
         [None, Some CHR ''R'', Some CHR ''E'', Some CHR ''A'', Some CHR ''R''],
         [None, Some CHR ''E'', None, None, None],
         [None, None, None, None, None]]\<rparr>"
  have run: "generateCrossword
     [\<lparr>word = ''area'', clue = ''surface''\<rparr>, \<lparr>word = ''rare'', clue = ''uncommon''\<rparr>,
      \<lparr>word = ''rear'', clue = ''back''\<rparr>]
     defaultOptions = Inr (Some ?P)"
    by code_simp
  from generated_puzzle_consistent[OF run] have "int (length (pgrid ?P)) = psize ?P" by blast
  with run show ?thesis by simp
qed

text \<open>
  Claim C3 says that no border row and no border column of a returned grid is empty. The
  returned grid is a square whose side is the larger side of the bounding box of the letters,
  so this fails: for the single word \<open>AB\<close> the grid is 2 by 2 and its last row is empty.
\<close>

theorem compacted_border_counterexample:
  "generateCrossword [\<lparr>word = ''AB'', clue = ''x''\<rparr>] defaultOptions =
     Inr (Some \<lparr>psize = 2,
        pwords = [\<lparr>number = 1, pword = ''AB'', pclue = ''x'', answer = ''AB'',
                   startRow = 0, startCol = 0, pdirection = Across\<rparr>],
        pgrid = [[Some CHR ''A'', Some CHR ''B''], [None, None]]\<rparr>) \<and>
   rowEmpty [[Some CHR ''A'', Some CHR ''B''], [None, None]] 1"
  by code_simp

text \<open>
  Claim C3, amended. In every returned puzzle the first row and the first column of the grid
  each hold a letter, and the last row or the last column holds a letter: no smaller square
  holds the content.
\<close>

theorem compacted_borders:
  assumes "generateCrossword wordInputs opts = Inr (Some P)"
  shows "pgrid P \<noteq> [] \<and> \<not> rowEmpty (pgrid P) 0 \<and> \<not> colEmpty (pgrid P) 0 \<and>
         (\<not> rowEmpty (pgrid P) (length (pgrid P) - 1) \<or>
          \<not> colEmpty (pgrid P) (length (pgrid P) - 1))"
proof -
  from generateCrossword_Some[OF assms] obtain g ps a b c d where
    cons: "consistent g ps" and ib: "isBounds g a b c d"
    and P: "P = \<lparr>psize = max (b - a + 1) (d - c + 1),
                pwords = assignClueNumbers (map (\<lambda>w. w\<lparr>row := row w - a, col := col w - c\<rparr>) ps),
                pgrid = copyContent g a b c d (emptyGrid (nat (max (b - a + 1) (d - c + 1))))\<rparr>"
    by blast
  have sq: "square g" using cons by (simp add: consistent_def)
  have gP: "pgrid P = copyContent g a b c d (emptyGrid (nat (max (b - a + 1) (d - c + 1))))"
    by (simp add: P)
  have sq': "square (pgrid P)" unfolding gP using sq ib by (rule compacted_translation(1))
  have len: "int (length (pgrid P)) = max (b - a + 1) (d - c + 1)"
    unfolding gP using sq ib by (rule compacted_translation(2))
  have ib': "isBounds (pgrid P) 0 (b - a) 0 (d - c)"
    unfolding gP using sq ib by (rule compacted_isBounds)
  have rg: "0 \<le> a \<and> a \<le> b \<and> b < int (length g) \<and> 0 \<le> c \<and> c \<le> d \<and> d < int (length g)"
    using sq ib by (rule isBounds_range)
  from ib' obtain c0 cb r0 rd where w:
    "cellAt (pgrid P) 0 c0 \<noteq> None" "cellAt (pgrid P) (b - a) cb \<noteq> None"
    "cellAt (pgrid P) r0 0 \<noteq> None" "cellAt (pgrid P) rd (d - c) \<noteq> None"
    unfolding isBounds_def by blast
  have first: "\<not> rowEmpty (pgrid P) 0" "\<not> colEmpty (pgrid P) 0"
    using nonempty_row_col(1)[OF sq' w(1)] nonempty_row_col(2)[OF sq' w(3)] by simp_all
  have lastr: "\<not> rowEmpty (pgrid P) (nat (b - a))" using nonempty_row_col(1)[OF sq' w(2)] .
  have lastc: "\<not> colEmpty (pgrid P) (nat (d - c))" using nonempty_row_col(2)[OF sq' w(4)] .
  have "length (pgrid P) - 1 = nat (b - a) \<or> length (pgrid P) - 1 = nat (d - c)"
  proof (cases "d - c \<le> b - a")
    case True
    then have "int (length (pgrid P)) = b - a + 1" using len by simp
    then have "length (pgrid P) - 1 = nat (b - a)" by linarith
    then show ?thesis ..
  next
    case False
    then have "int (length (pgrid P)) = d - c + 1" using len by simp
    then have "length (pgrid P) - 1 = nat (d - c)" by linarith
    then show ?thesis ..
  qed
  with lastr lastc have last: "\<not> rowEmpty (pgrid P) (length (pgrid P) - 1) \<or>
          \<not> colEmpty (pgrid P) (length (pgrid P) - 1)"
    by metis
  have "pgrid P \<noteq> []" using len rg by auto
  with first last show ?thesis by blast
qed

theorem compacted_borders_witness:
  "generateCrossword [\<lparr>word = ''cat'', clue = ''pet''\<rparr>] defaultOptions =
     Inr (Some \<lparr>psize = 3,
        pwords = [\<lparr>number = 1, pword = ''CAT'', pclue = ''pet'', answer = ''CAT'',
                   startRow = 0, startCol = 0, pdirection = Across\<rparr>],
        pgrid = [[Some CHR ''C'', Some CHR ''A'', Some CHR ''T''], [None, None, None],
                 [None, None, None]]\<rparr>) \<and>
   \<not> rowEmpty [[Some CHR ''C'', Some CHR ''A'', Some CHR ''T''], [None, None, None],
                 [None, None, None]] 0 \<and>
   \<not> colEmpty [[Some CHR ''C'', Some CHR ''A'', Some CHR ''T''], [None, None, None],
                 [None, None, None]] 0"
proof -
  let ?P = "\<lparr>psize = 3,
        pwords = [\<lparr>number = 1, pword = ''CAT'', pclue = ''pet'', answer = ''CAT'',
                   startRow = 0, startCol = 0, pdirection = Across\<rparr>],
        pgrid = [[Some CHR ''C'', Some CHR ''A'', Some CHR ''T''], [None, None, None],
                 [None, None, None]]\<rparr>"
  have run: "generateCrossword [\<lparr>word = ''cat'', clue = ''pet''\<rparr>] defaultOptions = Inr (Some ?P)"
    by code_simp
  from compacted_borders[OF run]
  have "\<not> rowEmpty (pgrid ?P) 0 \<and> \<not> colEmpty (pgrid ?P) 0" by blast
  with run show ?thesis by simp
qed

subsection \<open>The number of returned words\<close>

lemma length_numberFrom:
  "length (numberFrom n m) = sum_list (map (\<lambda>e. length (snd e)) m)"
  by (induction n m rule: numberFrom.induct) simp_all

lemma sum_list_insort_key:
  "sum_list (map f (insort_key k x xs)) = (f x :: nat) + sum_list (map f xs)"
  by (induction xs) simp_all

lemma sum_list_sort_key: "sum_list (map f (sort_key k xs)) = (sum_list (map f xs) :: nat)"
  by (induction xs) (simp_all add: sum_list_insort_key)

lemma sum_list_indicator:
  "distinct ks \<Longrightarrow> k0 \<in> set ks \<Longrightarrow> sum_list (map (\<lambda>k. if k0 = k then 1 else 0) ks) = (1::nat)"
proof (induction ks)
  case Nil
  then show ?case by simp
next
  case (Cons k ks)
  show ?case
  proof (cases "k0 = k")
    case True
    then have "k0 \<notin> set ks" using Cons.prems(1) by simp
    then have "sum_list (map (\<lambda>k. if k0 = k then 1 else 0) ks) = (0::nat)"
      by (induction ks) auto
    with True show ?thesis by simp
  next
    case False
    with Cons show ?thesis by simp
  qed
qed

lemma sum_list_groups:
  assumes "distinct ks" and "key ` set ws \<subseteq> set ks"
  shows "sum_list (map (\<lambda>k. length (filter (\<lambda>w. key w = k) ws)) ks) = length ws"
  using assms(2)
proof (induction ws)
  case Nil
  show ?case by simp
next
  case (Cons w ws)
  have "sum_list (map (\<lambda>k. length (filter (\<lambda>w. key w = k) (w # ws))) ks) =
        sum_list (map (\<lambda>k. (if key w = k then 1 else 0) + length (filter (\<lambda>w. key w = k) ws)) ks)"
    by (rule arg_cong[where f = sum_list], rule map_cong) simp_all
  also have "\<dots> = sum_list (map (\<lambda>k. if key w = k then 1 else 0) ks) +
                   sum_list (map (\<lambda>k. length (filter (\<lambda>w. key w = k) ws)) ks)"
    by (rule sum_list_addf)
  also have "\<dots> = 1 + length ws"
    using sum_list_indicator[OF assms(1), of "key w"] Cons by simp
  finally show ?case by simp
qed

lemma length_assignClueNumbers: "length (assignClueNumbers ws) = length ws"
proof -
  obtain ks where ks: "distinct ks" "set ks = (\<lambda>w. (row w, col w)) ` set ws"
    "fold addStart ws [] = map (\<lambda>k. (k, filter (\<lambda>w. (row w, col w) = k) ws)) ks"
    using startPositions_shape by blast
  have "length (assignClueNumbers ws) =
        sum_list (map (\<lambda>e. length (snd e)) (fold addStart ws []))"
    by (simp add: assignClueNumbers_def Let_def length_numberFrom sum_list_sort_key)
  also have "\<dots> = sum_list (map (\<lambda>k. length (filter (\<lambda>w. (row w, col w) = k) ws)) ks)"
    by (simp add: ks(3) comp_def)
  also have "\<dots> = length ws"
    using sum_list_groups[OF ks(1), of "\<lambda>w. (row w, col w)" ws] ks(2) by simp
  finally show ?thesis .
qed

subsection \<open>Words without a shared letter\<close>

lemma findIntersections_disjoint:
  "set a \<inter> set b = {} \<Longrightarrow> findIntersections a b = []"
proof (rule ccontr)
  assume d: "set a \<inter> set b = {}" and "findIntersections a b \<noteq> []"
  then obtain i j where "(i, j) \<in> set (findIntersections a b)"
    by (cases "findIntersections a b") auto
  then have "i < length a" "j < length b" "a ! i = b ! j" by (simp_all add: findIntersections_iff)
  then have "a ! i \<in> set a \<inter> set b" by (metis IntI nth_mem)
  with d show False by simp
qed

lemma collectCandidates_disjoint:
  assumes "\<forall>p \<in> set ps. set (word cw) \<inter> set (word p) = {}"
  shows "collectCandidates g cw ps = []"
  using assms by (simp add: collectCandidates_def candidatesFor_def findIntersections_disjoint)

lemma findPlacement_no_candidates:
  "collectCandidates g cw ps = [] \<Longrightarrow> fst (findPlacement opts g cw ps k) = None"
proof (induction opts g cw ps k rule: findPlacement.induct)
  case (1 opts g cw ps k)
  then show ?case
    by (cases "k < maxAttempts opts")
       (simp_all add: findPlacement.simps[of opts g cw ps k] selectBest_def)
qed

lemma placeRemaining_disjoint:
  assumes "\<forall>w \<in> set rest. \<forall>p \<in> set ps. set (word w) \<inter> set (word p) = {}"
  shows "placeRemaining opts rest (g, ps) = (g, ps)"
  using assms
proof (induction rest)
  case Nil
  show ?case by simp
next
  case (Cons cw rest)
  then have "collectCandidates g cw ps = []" by (simp add: collectCandidates_disjoint)
  then have "fst (findPlacement opts g cw ps 0) = None" by (rule findPlacement_no_candidates)
  with Cons show ?case by simp
qed

subsection \<open>The grid with the anchor word alone\<close>

lemma inSpan_Across:
  "inSpan w r c Across r' c' \<longleftrightarrow> r' = r \<and> c \<le> c' \<and> c' < c + int (length w)"
proof
  assume "inSpan w r c Across r' c'"
  then show "r' = r \<and> c \<le> c' \<and> c' < c + int (length w)"
    by (auto simp: inSpan_def cellRow_def cellCol_def)
next
  assume a: "r' = r \<and> c \<le> c' \<and> c' < c + int (length w)"
  then have "nat (c' - c) < length w" "cellRow Across r (nat (c' - c)) = r'"
    "cellCol Across c (nat (c' - c)) = c'"
    by (auto simp: cellRow_def cellCol_def)
  then show "inSpan w r c Across r' c'" unfolding inSpan_def by blast
qed

lemma cellAt_anchor:
  "cellAt (placeWord (emptyGrid (initialGridSize fw)) (word fw)
             (row (anchorPlacement fw)) (col (anchorPlacement fw)) Across) r' c' =
     (if r' = row (anchorPlacement fw) \<and> col (anchorPlacement fw) \<le> c' \<and>
         c' < col (anchorPlacement fw) + int (length (word fw))
      then Some (word fw ! nat (c' - col (anchorPlacement fw))) else None)"
  using cellAt_placeWord[OF square_emptyGrid anchor_inBounds, of fw r' c']
  by (simp add: inSpan_Across)

lemma anchor_isBounds:
  assumes "0 < length (word fw)"
  shows "isBounds (placeWord (emptyGrid (initialGridSize fw)) (word fw)
                     (row (anchorPlacement fw)) (col (anchorPlacement fw)) Across)
           (row (anchorPlacement fw)) (row (anchorPlacement fw))
           (col (anchorPlacement fw)) (col (anchorPlacement fw) + int (length (word fw)) - 1)"
proof -
  let ?r = "row (anchorPlacement fw)" and ?c = "col (anchorPlacement fw)"
  let ?L = "int (length (word fw))"
  let ?g = "placeWord (emptyGrid (initialGridSize fw)) (word fw) ?r ?c Across"
  have L: "0 < ?L" using assms by simp
  have 1: "cellAt ?g ?r ?c \<noteq> None" using L by (simp add: cellAt_anchor)
  have 2: "cellAt ?g ?r (?c + ?L - 1) \<noteq> None" using L by (simp add: cellAt_anchor)
  have 3: "?r \<le> r' \<and> r' \<le> ?r \<and> ?c \<le> c' \<and> c' \<le> ?c + ?L - 1" if "cellAt ?g r' c' \<noteq> None" for r' c'
    using that by (simp add: cellAt_anchor split: if_splits)
  show ?thesis unfolding isBounds_def using 1 2 3 by blast
qed

lemma assignClueNumbers_single: "assignClueNumbers [w] = [toPlacedWord 1 w]"
  by (simp add: assignClueNumbers_def addStart_def Let_def)

lemma single_row_grid:
  assumes "0 < length (word fw)"
  shows "copyContent (placeWord (emptyGrid (initialGridSize fw)) (word fw)
                        (row (anchorPlacement fw)) (col (anchorPlacement fw)) Across)
           (row (anchorPlacement fw)) (row (anchorPlacement fw))
           (col (anchorPlacement fw)) (col (anchorPlacement fw) + int (length (word fw)) - 1)
           (emptyGrid (length (word fw)))
         = map Some (word fw) # replicate (length (word fw) - 1) (replicate (length (word fw)) None)"
proof (rule grid_ext)
  let ?r = "row (anchorPlacement fw)" and ?c = "col (anchorPlacement fw)"
  let ?L = "length (word fw)"
  let ?g = "placeWord (emptyGrid (initialGridSize fw)) (word fw) ?r ?c Across"
  let ?new = "copyContent ?g ?r ?r ?c (?c + int ?L - 1) (emptyGrid ?L)"
  let ?lit = "map Some (word fw) # replicate (?L - 1) (replicate ?L None)"
  have L: "0 < ?L" using assms by simp
  show sqn: "square ?new" by (rule square_copyContent) simp
  show sql: "square ?lit" using L by (auto simp: square_def list_all_iff)
  show "length ?new = length ?lit" using L by simp
  fix i j
  have new: "cellAt ?new i j = (if i = 0 \<and> 0 \<le> j \<and> j < int ?L then Some (word fw ! nat j) else None)"
    using L by (auto simp: cellAt_copyContent cellAt_anchor inGrid_def)
  have lit: "cellAt ?lit i j = (if i = 0 \<and> 0 \<le> j \<and> j < int ?L then Some (word fw ! nat j) else None)"
  proof (cases "inGrid ?lit i j")
    case False
    then show ?thesis using sql L by (auto simp: cellAt_square inGrid_def)
  next
    case True
    then have ij: "0 \<le> i" "i < int ?L" "0 \<le> j" "j < int ?L" using L by (auto simp: inGrid_def)
    show ?thesis
    proof (cases "i = 0")
      case True
      with ij sql \<open>inGrid ?lit i j\<close> show ?thesis by (simp add: cellAt_square)
    next
      case False
      then obtain k where k: "nat i = Suc k" using ij by (cases "nat i") auto
      then have "k < ?L - 1" using ij by linarith
      with k ij False sql \<open>inGrid ?lit i j\<close> show ?thesis by (simp add: cellAt_square)
    qed
  qed
  show "cellAt ?new i j = cellAt ?lit i j" unfolding new lit ..
qed

subsection \<open>One valid word; three words without a shared letter\<close>

lemma normalizeWords_Nil [simp]: "normalizeWords [] = []"
  by (simp add: normalizeWords_def)

lemma single_word_result:
  assumes "normalizeWords ws = [w]"
  shows "generateCrossword ws opts =
     Inr (Some \<lparr>psize = int (length (word w)),
        pwords = [\<lparr>number = 1, pword = word w, pclue = clue w, answer = word w,
                   startRow = 0, startCol = 0, pdirection = Across\<rparr>],
        pgrid = map Some (word w) # replicate (length (word w) - 1)
                                      (replicate (length (word w)) None)\<rparr>)"
proof -
  let ?r = "row (anchorPlacement w)" and ?c = "col (anchorPlacement w)"
  let ?g = "placeWord (emptyGrid (initialGridSize w)) (word w) ?r ?c Across"
  have ne: "ws \<noteq> []" using assms by auto
  have "w \<in> set (normalizeWords ws)" using assms by simp
  then have L: "2 \<le> length (word w)" by (rule normalizeWords_length)
  then have L0: "0 < length (word w)" by linarith
  have po: "placementOf opts ws = (?g, [anchorPlacement w])"
    by (simp add: placementOf_def assms sortWords_def placeAll_def Let_def)
  have sq: "square ?g" by (simp add: square_placeWord)
  note ib = anchor_isBounds[OF L0]
  have m: "max (?r - ?r + 1) (?c + int (length (word w)) - 1 - ?c + 1) = int (length (word w))"
    using L by simp
  have shifted: "map (\<lambda>v. v\<lparr>row := row v - ?r, col := col v - ?c\<rparr>) [anchorPlacement w] =
        [\<lparr>word = word w, clue = clue w, row = 0, col = 0, direction = Across, score = 0\<rparr>]"
    by (simp add: anchorPlacement_def Let_def)
  have cg: "compactGrid ?g [anchorPlacement w] =
      Inr \<lparr>csize = int (length (word w)),
           cgrid = map Some (word w) # replicate (length (word w) - 1)
                                         (replicate (length (word w)) None),
           cwords = [\<lparr>word = word w, clue = clue w, row = 0, col = 0, direction = Across,
                      score = 0\<rparr>]\<rparr>"
    unfolding compactGrid_content[OF sq ib] m shifted
    by (simp add: single_row_grid[OF L0])
  show ?thesis
    using ne assms po cg
    by (simp add: generateCrossword_cases assignClueNumbers_single toPlacedWord_def)
qed

lemma disjoint_three_result:
  assumes nw: "normalizeWords ws = [x, y, z]"
    and xy: "set (word x) \<inter> set (word y) = {}"
    and xz: "set (word x) \<inter> set (word z) = {}"
    and yz: "set (word y) \<inter> set (word z) = {}"
  shows "generateCrossword ws opts = Inr None \<and>
         snd (placementOf opts ws) = [anchorPlacement (hd (sortWords [x, y, z]))]"
proof -
  have len: "word x \<noteq> []" "word y \<noteq> []" "word z \<noteq> []"
    using normalizeWords_length[of _ ws] nw by fastforce+
  then have "x \<noteq> y" "x \<noteq> z" "y \<noteq> z" using xy xz yz by auto
  then have dist: "distinct [x, y, z]" by simp
  obtain fw rest where srt: "sortWords [x, y, z] = fw # rest"
    by (cases "sortWords [x, y, z]") simp_all
  have "distinct (sortWords [x, y, z])" using dist unfolding sortWords_def by (simp only: distinct_sort)
  then have fw_rest: "fw \<notin> set rest" using srt by simp
  have "set (fw # rest) = {x, y, z}"
    using set_sortWords[of "[x, y, z]"] srt by simp
  then have mem: "fw \<in> {x, y, z}" "set rest \<subseteq> {x, y, z}" by auto
  have disj: "set (word v) \<inter> set (word fw) = {}" if "v \<in> set rest" for v
  proof -
    have "v \<noteq> fw" "v \<in> {x, y, z}" using that fw_rest mem(2) by auto
    with mem(1) xy xz yz show ?thesis by (auto simp: Int_commute)
  qed
  have "placeAll opts fw rest =
        (placeWord (emptyGrid (initialGridSize fw)) (word fw)
           (row (anchorPlacement fw)) (col (anchorPlacement fw)) Across, [anchorPlacement fw])"
    unfolding placeAll_def Let_def
    by (rule placeRemaining_disjoint) (simp add: disj anchorPlacement_def Let_def)
  then have po: "snd (placementOf opts ws) = [anchorPlacement fw]"
    by (simp add: placementOf_def nw srt)
  then have "generateCrossword ws opts = Inr None"
    by (simp add: generateCrossword_None_iff nw)
  with po srt show ?thesis by simp
qed

text \<open>
  Claim C1. A returned puzzle has as many words as the placement loop has placed, and at
  least \<open>min(3, wordCount)\<close> of them, \<open>wordCount\<close> being the number of valid words. When
  normalisation leaves exactly one word, generation succeeds and returns that word alone,
  across from the top left cell. When it leaves three words no two of which share a letter,
  only the anchor is placed and generation fails.
\<close>

theorem placement_threshold:
  "(generateCrossword ws opts = Inr (Some P) \<longrightarrow>
      length (pwords P) = length (snd (placementOf opts ws)) \<and>
      min 3 (int (length (normalizeWords ws))) \<le> int (length (pwords P))) \<and>
   (normalizeWords ws = [w] \<longrightarrow>
      generateCrossword ws opts =
        Inr (Some \<lparr>psize = int (length (word w)),
           pwords = [\<lparr>number = 1, pword = word w, pclue = clue w, answer = word w,
                      startRow = 0, startCol = 0, pdirection = Across\<rparr>],
           pgrid = map Some (word w) # replicate (length (word w) - 1)
                                         (replicate (length (word w)) None)\<rparr>)) \<and>
   (normalizeWords ws = [x, y, z] \<and> set (word x) \<inter> set (word y) = {} \<and>
    set (word x) \<inter> set (word z) = {} \<and> set (word y) \<inter> set (word z) = {} \<longrightarrow>
      generateCrossword ws opts = Inr None \<and>
      snd (placementOf opts ws) = [anchorPlacement (hd (sortWords [x, y, z]))])"
proof -
  have a: "length (pwords P) = length (snd (placementOf opts ws)) \<and>
      min 3 (int (length (normalizeWords ws))) \<le> int (length (pwords P))"
    if "generateCrossword ws opts = Inr (Some P)"
  proof -
    from generateCrossword_Some[OF that] obtain g ps a b c d where
      "placementOf opts ws = (g, ps)"
      "min 3 (int (length (normalizeWords ws))) \<le> int (length ps)"
      "P = \<lparr>psize = max (b - a + 1) (d - c + 1),
            pwords = assignClueNumbers (map (\<lambda>w. w\<lparr>row := row w - a, col := col w - c\<rparr>) ps),
            pgrid = copyContent g a b c d (emptyGrid (nat (max (b - a + 1) (d - c + 1))))\<rparr>"
      by blast
    then show ?thesis by (simp add: length_assignClueNumbers)
  qed
  show ?thesis using a single_word_result disjoint_three_result by blast
qed

theorem placement_threshold_witness:
  "normalizeWords [\<lparr>word = ''ab'', clue = ''x''\<rparr>] = [\<lparr>word = ''AB'', clue = ''x''\<rparr>] \<and>
   generateCrossword [\<lparr>word = ''ab'', clue = ''x''\<rparr>] defaultOptions =
     Inr (Some \<lparr>psize = 2,
        pwords = [\<lparr>number = 1, pword = ''AB'', pclue = ''x'', answer = ''AB'',
                   startRow = 0, startCol = 0, pdirection = Across\<rparr>],
        pgrid = [[Some CHR ''A'', Some CHR ''B''], [None, None]]\<rparr>) \<and>
   normalizeWords [\<lparr>word = ''BCD'', clue = ''a''\<rparr>, \<lparr>word = ''FGH'', clue = ''b''\<rparr>,
                   \<lparr>word = ''JKL'', clue = ''c''\<rparr>] =
     [\<lparr>word = ''BCD'', clue = ''a''\<rparr>, \<lparr>word = ''FGH'', clue = ''b''\<rparr>, \<lparr>word = ''JKL'', clue = ''c''\<rparr>] \<and>
   generateCrossword [\<lparr>word = ''BCD'', clue = ''a''\<rparr>, \<lparr>word = ''FGH'', clue = ''b''\<rparr>,
                      \<lparr>word = ''JKL'', clue = ''c''\<rparr>] defaultOptions = Inr None"
proof -
  have n1: "normalizeWords [\<lparr>word = ''ab'', clue = ''x''\<rparr>] = [\<lparr>word = ''AB'', clue = ''x''\<rparr>]"
    by code_simp
  have n3: "normalizeWords [\<lparr>word = ''BCD'', clue = ''a''\<rparr>, \<lparr>word = ''FGH'', clue = ''b''\<rparr>,
                   \<lparr>word = ''JKL'', clue = ''c''\<rparr>] =
     [\<lparr>word = ''BCD'', clue = ''a''\<rparr>, \<lparr>word = ''FGH'', clue = ''b''\<rparr>, \<lparr>word = ''JKL'', clue = ''c''\<rparr>]"
    by code_simp
  have d: "set (word \<lparr>word = ''BCD'', clue = ''a''\<rparr>) \<inter> set (word \<lparr>word = ''FGH'', clue = ''b''\<rparr>) = {}"
    "set (word \<lparr>word = ''BCD'', clue = ''a''\<rparr>) \<inter> set (word \<lparr>word = ''JKL'', clue = ''c''\<rparr>) = {}"
    "set (word \<lparr>word = ''FGH'', clue = ''b''\<rparr>) \<inter> set (word \<lparr>word = ''JKL'', clue = ''c''\<rparr>) = {}"
    by simp_all
  from placement_threshold[of "[\<lparr>word = ''ab'', clue = ''x''\<rparr>]" defaultOptions _
      "\<lparr>word = ''AB'', clue = ''x''\<rparr>"] n1
  have r1: "generateCrossword [\<lparr>word = ''ab'', clue = ''x''\<rparr>] defaultOptions =
     Inr (Some \<lparr>psize = 2,
        pwords = [\<lparr>number = 1, pword = ''AB'', pclue = ''x'', answer = ''AB'',
                   startRow = 0, startCol = 0, pdirection = Across\<rparr>],
        pgrid = [[Some CHR ''A'', Some CHR ''B''], [None, None]]\<rparr>)"
    by simp
  from placement_threshold[of "[\<lparr>word = ''BCD'', clue = ''a''\<rparr>, \<lparr>word = ''FGH'', clue = ''b''\<rparr>,
                   \<lparr>word = ''JKL'', clue = ''c''\<rparr>]" defaultOptions _ _
      "\<lparr>word = ''BCD'', clue = ''a''\<rparr>" "\<lparr>word = ''FGH'', clue = ''b''\<rparr>" "\<lparr>word = ''JKL'', clue = ''c''\<rparr>"]
    n3 d
  have r3: "generateCrossword [\<lparr>word = ''BCD'', clue = ''a''\<rparr>, \<lparr>word = ''FGH'', clue = ''b''\<rparr>,
                      \<lparr>word = ''JKL'', clue = ''c''\<rparr>] defaultOptions = Inr None"
    by blast
  from n1 r1 n3 r3 show ?thesis by blast
qed

subsection \<open>Failures\<close>

text \<open>
  Claim C5 says that the returned value tells the three failures apart. It does not: an empty
  input, an input without a valid word, and an input of which too few words are placed all
  return the same \<open>null\<close>.
\<close>

theorem failure_modes_counterexample:
  "generateCrossword [] defaultOptions = Inr None \<and>
   normalizeWords [\<lparr>word = ''a'', clue = ''letter''\<rparr>, \<lparr>word = ''co-ffee'', clue = ''drink''\<rparr>] = [] \<and>
   generateCrossword [\<lparr>word = ''a'', clue = ''letter''\<rparr>, \<lparr>word = ''co-ffee'', clue = ''drink''\<rparr>]
     defaultOptions = Inr None \<and>
   length (normalizeWords [\<lparr>word = ''BCD'', clue = ''a''\<rparr>, \<lparr>word = ''FGH'', clue = ''b''\<rparr>,
                           \<lparr>word = ''JKL'', clue = ''c''\<rparr>]) = 3 \<and>
   length (snd (placementOf defaultOptions
                  [\<lparr>word = ''BCD'', clue = ''a''\<rparr>, \<lparr>word = ''FGH'', clue = ''b''\<rparr>,
                   \<lparr>word = ''JKL'', clue = ''c''\<rparr>])) = 1 \<and>
   generateCrossword [\<lparr>word = ''BCD'', clue = ''a''\<rparr>, \<lparr>word = ''FGH'', clue = ''b''\<rparr>,
                      \<lparr>word = ''JKL'', clue = ''c''\<rparr>] defaultOptions = Inr None"
  by code_simp

text \<open>
  Claim C5, amended. \<open>generateCrossword\<close> returns \<open>null\<close> exactly when the input is empty, or
  no word is valid, or fewer than \<open>min(3, wordCount)\<close> words are placed; in every other case it
  returns a puzzle, and it never throws. So the returned value tells failure from success, and
  nothing more.
\<close>

theorem failure_is_null:
  "(generateCrossword ws opts = Inr None \<longleftrightarrow>
      ws = [] \<or> normalizeWords ws = [] \<or>
      int (length (snd (placementOf opts ws))) < min 3 (int (length (normalizeWords ws)))) \<and>
   (generateCrossword ws opts = Inr None \<or> (\<exists>P. generateCrossword ws opts = Inr (Some P)))"
  using generateCrossword_None_iff[of ws opts] generateCrossword_total[of ws opts] by blast

theorem failure_is_null_witness:
  "normalizeWords [\<lparr>word = ''x'', clue = ''unknown''\<rparr>] = [] \<and>
   generateCrossword [\<lparr>word = ''x'', clue = ''unknown''\<rparr>] defaultOptions = Inr None"
proof -
  have n: "normalizeWords [\<lparr>word = ''x'', clue = ''unknown''\<rparr>] = []" by code_simp
  with failure_is_null[of "[\<lparr>word = ''x'', clue = ''unknown''\<rparr>]" defaultOptions]
  show ?thesis by blast
qed

end
